theory Spec2Isabelle
  imports Complex_Main "HOL-Library.Multiset" "HOL-Library.Product_Lexorder"
begin

section \<open>Data model of \<^verbatim>\<open>order_book.py\<close>\<close>

text \<open>
  Sides and order types are the strings \<^verbatim>\<open>"BUY"\<close>/\<^verbatim>\<open>"SELL"\<close> and
  \<^verbatim>\<open>"MARKET"\<close>/\<^verbatim>\<open>"LIMIT"\<close> in the source. The source only ever tests
  \<^verbatim>\<open>side == "BUY"\<close> and \<^verbatim>\<open>order_type == "MARKET"\<close>, every other value taking the
  else branch, so the two-valued datatypes below keep all the behaviour.
  Prices and timestamps are Python floats. The prices given to the engine are finite, and the
  engine only compares, negates and copies them, which is exact on floats: they are the reals
  that the floats denote. The one place that computes with prices is
  \<^verbatim>\<open>get_mid_price\<close>, whose float addition and division are modelled as such below.
  Quantities and order ids are Python ints.
\<close>

datatype side = BUY | SELL

datatype order_type = MARKET | LIMIT

record Order =
  order_id :: int
  side :: side
  price :: real
  quantity :: int
  order_type :: order_type
  timestamp :: real
  participant_name :: string

datatype Trade = Trade (tr_timestamp: real) (tr_price: real) (tr_quantity: int) (tr_side: side)

text \<open>\<^verbatim>\<open>Order.__lt__\<close>: orders compare by timestamp.\<close>

definition order_lt :: "Order \<Rightarrow> Order \<Rightarrow> bool" where
  "order_lt a b = (timestamp a < timestamp b)"

text \<open>
  A heap entry is the tuple \<^verbatim>\<open>(key, timestamp, order)\<close>. Python compares tuples at the first
  position where they differ (by \<^verbatim>\<open>==\<close>), with \<^verbatim>\<open><\<close> of that position.
\<close>

type_synonym entry = "real \<times> real \<times> Order"

definition entry_lt :: "entry \<Rightarrow> entry \<Rightarrow> bool" where
  "entry_lt a b =
     (case a of (k1, t1, o1) \<Rightarrow> case b of (k2, t2, o2) \<Rightarrow>
        if k1 \<noteq> k2 then k1 < k2
        else if t1 \<noteq> t2 then t1 < t2
        else if o1 \<noteq> o2 then order_lt o1 o2
        else False)"

definition entry_order :: "entry \<Rightarrow> Order" where
  "entry_order e = snd (snd e)"

section \<open>The heap operations of Python's \<^verbatim>\<open>heapq\<close>\<close>

text \<open>
  The source keeps both sides in Python lists managed by \<^verbatim>\<open>heapq\<close>. The functions below
  follow the library's reference algorithm on the list itself, so that \<^verbatim>\<open>heap[0]\<close> in the
  model is the element the program reads. The two private helpers are only called with
  \<open>pos < length heap\<close>.
\<close>

function siftdown_loop :: "entry list \<Rightarrow> nat \<Rightarrow> nat \<Rightarrow> entry \<Rightarrow> entry list" where
  "siftdown_loop heap startpos pos newitem =
     (if pos > startpos then
        (let parentpos = (pos - 1) div 2;
             parent = heap ! parentpos
         in if entry_lt newitem parent
            then siftdown_loop (heap[pos := parent]) startpos parentpos newitem
            else heap[pos := newitem])
      else heap[pos := newitem])"
  by pat_completeness auto
termination
  by (relation "measure (\<lambda>(h, s, p, x). p)") auto

declare siftdown_loop.simps [simp del]

definition siftdown :: "entry list \<Rightarrow> nat \<Rightarrow> nat \<Rightarrow> entry list" where
  "siftdown heap startpos pos = siftdown_loop heap startpos pos (heap ! pos)"

function siftup_loop :: "entry list \<Rightarrow> nat \<Rightarrow> nat \<Rightarrow> entry list \<times> nat" where
  "siftup_loop heap endpos pos =
     (let childpos = 2 * pos + 1 in
      if childpos < endpos then
        (let rightpos = childpos + 1;
             childpos = (if rightpos < endpos \<and> \<not> entry_lt (heap ! childpos) (heap ! rightpos)
                         then rightpos else childpos)
         in siftup_loop (heap[pos := heap ! childpos]) endpos childpos)
      else (heap, pos))"
  by pat_completeness auto
termination
  by (relation "measure (\<lambda>(h, e, p). e - p)") (auto simp: Let_def)

declare siftup_loop.simps [simp del]

definition siftup :: "entry list \<Rightarrow> nat \<Rightarrow> entry list" where
  "siftup heap pos =
     (let newitem = heap ! pos;
          (heap', pos') = siftup_loop heap (length heap) pos
      in siftdown (heap'[pos' := newitem]) pos pos')"

definition heappush :: "entry list \<Rightarrow> entry \<Rightarrow> entry list" where
  "heappush heap item = siftdown (heap @ [item]) 0 (length (heap @ [item]) - 1)"

text \<open>\<^verbatim>\<open>heappop\<close> raises IndexError on the empty list: \<open>None\<close>.\<close>

definition heappop :: "entry list \<Rightarrow> (entry \<times> entry list) option" where
  "heappop heap =
     (if heap = [] then None
      else (let lastelt = last heap; heap' = butlast heap
            in if heap' \<noteq> [] then Some (heap' ! 0, siftup (heap'[0 := lastelt]) 0)
               else Some (lastelt, [])))"

definition heapify :: "entry list \<Rightarrow> entry list" where
  "heapify x = fold (\<lambda>i h. siftup h i) (rev [0 ..< length x div 2]) x"

subsection \<open>The heap operations keep the length of the list\<close>

lemma length_siftdown_loop [simp]: "length (siftdown_loop h st p x) = length h"
proof (induction h st p x rule: siftdown_loop.induct)
  case (1 heap startpos pos newitem)
  show ?case
    using "1.IH" by (subst siftdown_loop.simps) (simp add: Let_def)
qed

lemma length_siftdown [simp]: "length (siftdown h st p) = length h"
  by (simp add: siftdown_def)

lemma length_siftup_loop [simp]: "length (fst (siftup_loop h e p)) = length h"
proof (induction h e p rule: siftup_loop.induct)
  case (1 heap endpos pos)
  show ?case
    using "1.IH" by (subst siftup_loop.simps) (simp add: Let_def)
qed

lemma length_siftup [simp]: "length (siftup h p) = length h"
proof -
  obtain h' p' where e: "siftup_loop h (length h) p = (h', p')"
    by (cases "siftup_loop h (length h) p")
  have "length h' = length h"
    using length_siftup_loop [of h "length h" p] e by simp
  then show ?thesis
    by (simp add: siftup_def e)
qed

lemma length_heappush [simp]: "length (heappush h x) = Suc (length h)"
  by (simp add: heappush_def)

lemma heappop_eq_None [simp]: "heappop h = None \<longleftrightarrow> h = []"
  by (cases "butlast h = []") (simp_all add: heappop_def Let_def)

lemma length_heappop: "heappop h = Some (x, h') \<Longrightarrow> length h' = length h - 1"
  by (cases h rule: rev_cases) (auto simp: heappop_def Let_def split: if_splits)

lemma length_heapify_aux: "length (fold (\<lambda>i h. siftup h i) is h) = length h"
  by (induction "is" arbitrary: h) simp_all

lemma length_heapify [simp]: "length (heapify h) = length h"
  by (simp add: heapify_def length_heapify_aux)

subsection \<open>The heap property and the contents of the list\<close>

text \<open>
  \<open>entry_le\<close> is the order the library sees (\<open>a \<le> b\<close> when \<open>b < a\<close> fails). A list is a heap
  when no element is smaller than its parent, the parent of index \<open>j\<close> being \<open>(j - 1) div 2\<close>.
  \<open>heap_from st\<close> asks this of the parents at index \<open>st\<close> and above, which is what
  \<^verbatim>\<open>heapify\<close> establishes step by step; \<open>hole_inv\<close> is the state of a sift in progress,
  the list being a heap around the position \<open>pos\<close> whose content is about to be overwritten.
\<close>

definition entry_le :: "entry \<Rightarrow> entry \<Rightarrow> bool" where
  "entry_le a b = (\<not> entry_lt b a)"

lemma entry_lt_iff:
  "entry_lt a b \<longleftrightarrow>
     (fst a < fst b \<or> fst a = fst b \<and> (fst (snd a) < fst (snd b) \<or>
        fst (snd a) = fst (snd b) \<and> timestamp (entry_order a) < timestamp (entry_order b)))"
  by (cases a; cases b) (auto simp: entry_lt_def order_lt_def entry_order_def)

lemma entry_le_refl [simp]: "entry_le a a"
  by (simp add: entry_le_def entry_lt_iff)

lemma entry_le_trans: "entry_le a b \<Longrightarrow> entry_le b c \<Longrightarrow> entry_le a c"
  unfolding entry_le_def entry_lt_iff by auto

lemma entry_lt_imp_le: "entry_lt a b \<Longrightarrow> entry_le a b"
  unfolding entry_le_def entry_lt_iff by auto

lemma entry_le_total: "entry_le a b \<or> entry_le b a"
  using entry_lt_imp_le entry_le_def by blast

definition parent :: "nat \<Rightarrow> nat" where
  "parent j = (j - 1) div 2"

definition heap_from :: "nat \<Rightarrow> entry list \<Rightarrow> bool" where
  "heap_from st h \<longleftrightarrow> (\<forall>j<length h. 0 < j \<and> st \<le> parent j \<longrightarrow> entry_le (h ! parent j) (h ! j))"

definition hole_inv :: "nat \<Rightarrow> entry list \<Rightarrow> nat \<Rightarrow> bool" where
  "hole_inv st h pos \<longleftrightarrow>
     (\<forall>j<length h. 0 < j \<and> st \<le> parent j \<and> j \<noteq> pos \<and> parent j \<noteq> pos
        \<longrightarrow> entry_le (h ! parent j) (h ! j)) \<and>
     (st < pos \<longrightarrow> (\<forall>j<length h. 0 < j \<and> parent j = pos \<longrightarrow> entry_le (h ! parent pos) (h ! j)))"

inductive below :: "nat \<Rightarrow> nat \<Rightarrow> bool" for st where
  below_refl: "below st st"
| below_left: "below st p \<Longrightarrow> below st (2 * p + 1)"
| below_right: "below st p \<Longrightarrow> below st (2 * p + 2)"

lemma below_le: "below st p \<Longrightarrow> st \<le> p"
  by (induction rule: below.induct) auto

lemma below_parent: "below st p \<Longrightarrow> st < p \<Longrightarrow> below st (parent p)"
  by (induction rule: below.induct) (auto simp: parent_def)

lemma below_parent_le: "below st p \<Longrightarrow> st < p \<Longrightarrow> st \<le> parent p"
  by (simp add: below_le below_parent)

lemma parent_less: "0 < j \<Longrightarrow> parent j < j"
  unfolding parent_def by arith

lemma parent_cases: "0 < j \<Longrightarrow> parent j = p \<Longrightarrow> j = 2 * p + 1 \<or> j = 2 * p + 2"
  unfolding parent_def by arith

lemma below_zero: "below 0 p"
proof (induction p rule: less_induct)
  case (less p)
  show ?case
  proof (cases "p = 0")
    case True
    then show ?thesis by (simp add: below_refl)
  next
    case False
    then have "below 0 (parent p)"
      using less parent_less by simp
    moreover have "p = 2 * parent p + 1 \<or> p = 2 * parent p + 2"
      using False parent_cases by simp
    ultimately show ?thesis
      using below_left below_right by metis
  qed
qed

lemma hole_inv_update [simp]: "hole_inv st (h[pos := y]) pos = hole_inv st h pos"
proof -
  have a: "h[pos := y] ! j = h ! j" if "j \<noteq> pos" for j
    using that by simp
  have c: "parent pos \<noteq> pos" if "st < pos"
    using parent_less [of pos] that by simp
  have "(\<forall>j<length h. 0 < j \<and> st \<le> parent j \<and> j \<noteq> pos \<and> parent j \<noteq> pos
        \<longrightarrow> entry_le (h[pos := y] ! parent j) (h[pos := y] ! j)) \<longleftrightarrow>
     (\<forall>j<length h. 0 < j \<and> st \<le> parent j \<and> j \<noteq> pos \<and> parent j \<noteq> pos
        \<longrightarrow> entry_le (h ! parent j) (h ! j))"
    using a by metis
  moreover have "(\<forall>j<length h. 0 < j \<and> parent j = pos \<longrightarrow> entry_le (h[pos := y] ! parent pos) (h[pos := y] ! j))
     \<longleftrightarrow> (\<forall>j<length h. 0 < j \<and> parent j = pos \<longrightarrow> entry_le (h ! parent pos) (h ! j))" if "st < pos"
  proof -
    have "h[pos := y] ! j = h ! j" if "0 < j" "parent j = pos" for j
      using that parent_less [of j] by simp
    moreover have "h[pos := y] ! parent pos = h ! parent pos"
      using c [OF \<open>st < pos\<close>] by simp
    ultimately show ?thesis by metis
  qed
  ultimately show ?thesis
    unfolding hole_inv_def by auto
qed


lemma siftdown_loop_heap:
  assumes "below st pos" "pos < length h" "hole_inv st h pos"
    and "\<forall>j<length h. 0 < j \<and> parent j = pos \<longrightarrow> entry_le x (h ! j)"
  shows "heap_from st (siftdown_loop h st pos x)"
  using assms
proof (induction h st pos x rule: siftdown_loop.induct)
  case (1 heap startpos pos newitem)
  let ?pp = "parent pos"
  have A: "entry_le (heap ! parent j) (heap ! j)"
    if "j < length heap" "0 < j" "startpos \<le> parent j" "j \<noteq> pos" "parent j \<noteq> pos" for j
    using "1.prems"(3) that unfolding hole_inv_def by blast
  have C: "entry_le (heap ! ?pp) (heap ! j)"
    if "startpos < pos" "j < length heap" "0 < j" "parent j = pos" for j
    using "1.prems"(3) that unfolding hole_inv_def by blast
  have B: "entry_le newitem (heap ! j)" if "j < length heap" "0 < j" "parent j = pos" for j
    using "1.prems"(4) that by blast
  show ?case
  proof (cases "startpos < pos \<and> entry_lt newitem (heap ! ?pp)")
    case True
    then have pos0: "0 < pos" and lt: "entry_lt newitem (heap ! ?pp)" and sp: "startpos < pos"
      by auto
    have pp_less: "?pp < pos"
      using parent_less [OF pos0] .
    have pp_len: "?pp < length heap"
      using pp_less "1.prems"(2) by simp
    have st_pp: "startpos \<le> ?pp"
      using below_parent_le [OF "1.prems"(1) sp] .
    let ?h1 = "heap[pos := heap ! ?pp]"
    have h1_nth: "?h1 ! j = (if j = pos then heap ! ?pp else heap ! j)" if "j < length heap" for j
      using that by (simp add: nth_list_update)
    have inv1: "hole_inv startpos ?h1 ?pp"
      unfolding hole_inv_def
    proof (intro conjI allI impI)
      fix j
      assume j: "j < length ?h1"
        and c: "0 < j \<and> startpos \<le> parent j \<and> j \<noteq> ?pp \<and> parent j \<noteq> ?pp"
      then have jl: "j < length heap" and j0: "0 < j" and jp: "j \<noteq> pos"
        by auto
      have pjl: "parent j < length heap"
        using parent_less [OF j0] jl by simp
      show "entry_le (?h1 ! parent j) (?h1 ! j)"
      proof (cases "parent j = pos")
        case True
        then show ?thesis
          using C [OF sp jl j0 True] h1_nth [OF jl] h1_nth [OF pjl] jp by simp
      next
        case False
        then show ?thesis
          using A [OF jl j0 _ jp False] c h1_nth [OF jl] h1_nth [OF pjl] jp by simp
      qed
    next
      fix j
      assume spp: "startpos < ?pp" and j: "j < length ?h1" and c: "0 < j \<and> parent j = ?pp"
      then have jl: "j < length heap" and j0: "0 < j" and pj: "parent j = ?pp"
        by auto
      have pp0: "0 < ?pp"
        using spp by simp
      have ppp: "parent ?pp < ?pp"
        using parent_less [OF pp0] .
      have st_ppp: "startpos \<le> parent ?pp"
        using below_parent_le [OF below_parent [OF "1.prems"(1) sp] spp] .
      have g: "entry_le (heap ! parent ?pp) (heap ! ?pp)"
        using A [OF pp_len pp0 st_ppp] pp_less ppp by simp
      have top: "?h1 ! parent ?pp = heap ! parent ?pp"
        using ppp pp_less by simp
      show "entry_le (?h1 ! parent ?pp) (?h1 ! j)"
      proof (cases "j = pos")
        case True
        then show ?thesis
          using g top h1_nth [OF jl] by simp
      next
        case False
        have "entry_le (heap ! ?pp) (heap ! j)"
          using A [OF jl j0 _ False] pj st_pp pp_less by simp
        then show ?thesis
          using g top h1_nth [OF jl] False entry_le_trans by (auto simp: nth_list_update)
      qed
    qed
    have b1: "\<forall>j<length ?h1. 0 < j \<and> parent j = ?pp \<longrightarrow> entry_le newitem (?h1 ! j)"
    proof (intro allI impI)
      fix j
      assume j: "j < length ?h1" and c: "0 < j \<and> parent j = ?pp"
      then have jl: "j < length heap" and j0: "0 < j" and pj: "parent j = ?pp"
        by auto
      show "entry_le newitem (?h1 ! j)"
      proof (cases "j = pos")
        case True
        then show ?thesis
          using entry_lt_imp_le [OF lt] h1_nth [OF jl] by simp
      next
        case False
        have "entry_le (heap ! ?pp) (heap ! j)"
          using A [OF jl j0 _ False] pj st_pp pp_less by simp
        then show ?thesis
          using entry_le_trans [OF entry_lt_imp_le [OF lt]] h1_nth [OF jl] False by simp
      qed
    qed
    have "heap_from startpos (siftdown_loop ?h1 startpos ?pp newitem)"
      using "1.IH" [OF sp, of ?pp "heap ! ?pp"] lt below_parent [OF "1.prems"(1) sp] pp_len inv1 b1
      by (simp add: parent_def)
    then show ?thesis
      using True by (subst siftdown_loop.simps) (simp add: Let_def parent_def)
  next
    case False
    have res: "siftdown_loop heap startpos pos newitem = heap[pos := newitem]"
      using False by (subst siftdown_loop.simps) (auto simp: Let_def parent_def)
    have "heap_from startpos (heap[pos := newitem])"
      unfolding heap_from_def
    proof (intro allI impI)
      fix j
      assume j: "j < length (heap[pos := newitem])" and c: "0 < j \<and> startpos \<le> parent j"
      then have jl: "j < length heap" and j0: "0 < j" and sj: "startpos \<le> parent j"
        by auto
      have pjl: "parent j < length heap" and pjj: "parent j < j"
        using parent_less [OF j0] jl by simp_all
      show "entry_le (heap[pos := newitem] ! parent j) (heap[pos := newitem] ! j)"
      proof (cases "j = pos")
        case True
        have "startpos < pos"
          using sj pjj True by simp
        then have "entry_le (heap ! ?pp) newitem"
          using False by (simp add: entry_le_def)
        then show ?thesis
          using True pjj jl by simp
      next
        case jp: False
        show ?thesis
        proof (cases "parent j = pos")
          case True
          then show ?thesis
            using B [OF jl j0 True] jp "1.prems"(2) by simp
        next
          case False
          then show ?thesis
            using A [OF jl j0 sj jp False] jp by simp
        qed
      qed
    qed
    then show ?thesis
      by (simp add: res)
  qed
qed


lemma siftup_loop_heap:
  assumes "below st pos" "pos < length h" "hole_inv st h pos"
  shows "case siftup_loop h (length h) pos of (h', p') \<Rightarrow>
           below st p' \<and> p' < length h' \<and> hole_inv st h' p' \<and> length h' \<le> 2 * p' + 1
           \<and> length h' = length h"
  using assms
proof (induction h "length h" pos rule: siftup_loop.induct)
  case (1 heap pos)
  let ?n = "length heap"
  show ?case
  proof (cases "2 * pos + 1 < ?n")
    case False
    then have "siftup_loop heap ?n pos = (heap, pos)"
      by (subst siftup_loop.simps) (simp add: Let_def)
    then show ?thesis
      using "1.prems" False by simp
  next
    case True
    define c where "c = (if 2 * pos + 2 < ?n \<and> \<not> entry_lt (heap ! (2 * pos + 1)) (heap ! (2 * pos + 2))
                          then 2 * pos + 2 else 2 * pos + 1)"
    let ?h1 = "heap[pos := heap ! c]"
    have c_cases: "c = 2 * pos + 1 \<or> c = 2 * pos + 2"
      by (simp add: c_def)
    have c_len: "c < ?n"
      using True by (auto simp: c_def)
    have pc: "parent c = pos" and c0: "0 < c" and c_pos: "pos < c"
      using c_cases by (auto simp: parent_def)
    have unfold: "siftup_loop heap ?n pos = siftup_loop ?h1 ?n c"
      using True by (subst siftup_loop.simps) (simp add: Let_def c_def)
    have below_c: "below st c"
      using c_cases below_left [OF "1.prems"(1)] below_right [OF "1.prems"(1)] by auto
    have A: "entry_le (heap ! parent j) (heap ! j)"
      if "j < ?n" "0 < j" "st \<le> parent j" "j \<noteq> pos" "parent j \<noteq> pos" for j
      using "1.prems"(3) that unfolding hole_inv_def by blast
    have C: "entry_le (heap ! parent pos) (heap ! j)"
      if "st < pos" "j < ?n" "0 < j" "parent j = pos" for j
      using "1.prems"(3) that unfolding hole_inv_def by blast
    have st_pos: "st \<le> pos"
      using below_le [OF "1.prems"(1)] .
    have sib: "entry_le (heap ! c) (heap ! j)" if "j < ?n" "0 < j" "parent j = pos" for j
    proof -
      have jc: "j = 2 * pos + 1 \<or> j = 2 * pos + 2"
        using parent_cases [OF that(2,3)] .
      show ?thesis
      proof (cases "j = c")
        case True
        then show ?thesis by simp
      next
        case False
        show ?thesis
        proof (cases "c = 2 * pos + 2")
          case True
          then have "\<not> entry_lt (heap ! (2 * pos + 1)) (heap ! (2 * pos + 2))"
            by (auto simp: c_def split: if_splits)
          moreover have "j = 2 * pos + 1"
            using jc False True by simp
          ultimately show ?thesis
            using True by (simp add: entry_le_def)
        next
          case c1: False
          then have c1': "c = 2 * pos + 1"
            using c_cases by simp
          have j2: "j = 2 * pos + 2"
            using jc False c1' by simp
          then have "2 * pos + 2 < ?n"
            using that(1) by simp
          then have "entry_lt (heap ! (2 * pos + 1)) (heap ! (2 * pos + 2))"
            using c1 by (auto simp: c_def split: if_splits)
          then show ?thesis
            using entry_lt_imp_le c1' j2 by simp
        qed
      qed
    qed
    have inv1: "hole_inv st ?h1 c"
      unfolding hole_inv_def
    proof (intro conjI allI impI)
      fix j
      assume j: "j < length ?h1" and cnd: "0 < j \<and> st \<le> parent j \<and> j \<noteq> c \<and> parent j \<noteq> c"
      then have jl: "j < ?n" and j0: "0 < j" and sj: "st \<le> parent j" and jc: "j \<noteq> c"
        and pjc: "parent j \<noteq> c"
        by auto
      have pjj: "parent j < j"
        using parent_less [OF j0] .
      show "entry_le (?h1 ! parent j) (?h1 ! j)"
      proof (cases "j = pos")
        case True
        have "st < pos"
          using sj pjj True by simp
        then have "entry_le (heap ! parent pos) (heap ! c)"
          using C [OF _ c_len c0 pc] by simp
        then show ?thesis
          using True pjj "1.prems"(2) by simp
      next
        case jp: False
        show ?thesis
        proof (cases "parent j = pos")
          case True
          then show ?thesis
            using sib [OF jl j0 True] jp "1.prems"(2) by simp
        next
          case False
          then show ?thesis
            using A [OF jl j0 sj jp False] jp by simp
        qed
      qed
    next
      fix j
      assume "st < c" and j: "j < length ?h1" and cnd: "0 < j \<and> parent j = c"
      then have jl: "j < ?n" and j0: "0 < j" and pj: "parent j = c"
        by auto
      have cj: "c < j"
        using parent_less [OF j0] pj by simp
      have "entry_le (heap ! c) (heap ! j)"
        using A [OF jl j0] pj st_pos c_pos cj by simp
      then show "entry_le (?h1 ! parent c) (?h1 ! j)"
        using pc "1.prems"(2) cj c_pos by simp
    qed
    have "case siftup_loop ?h1 (length ?h1) c of (h', p') \<Rightarrow>
           below st p' \<and> p' < length h' \<and> hole_inv st h' p' \<and> length h' \<le> 2 * p' + 1
           \<and> length h' = length ?h1"
    proof (rule "1.hyps")
      show "2 * pos + 1 = 2 * pos + 1" by simp
      show "2 * pos + 1 < ?n" using True .
      show "2 * pos + 1 + 1 = 2 * pos + 1 + 1" by simp
      show "c = (if 2 * pos + 1 + 1 < ?n \<and> \<not> entry_lt (heap ! (2 * pos + 1)) (heap ! (2 * pos + 1 + 1))
                 then 2 * pos + 1 + 1 else 2 * pos + 1)"
        by (simp add: c_def)
      show "length heap = length ?h1" by simp
      show "below st c" using below_c .
      show "c < length ?h1" using c_len by simp
      show "hole_inv st ?h1 c" using inv1 .
    qed
    then show ?thesis
      using unfold by simp
  qed
qed


lemma heap_from_imp_hole_inv: "heap_from (Suc i) h \<Longrightarrow> hole_inv i h i"
  unfolding heap_from_def hole_inv_def by (auto simp: Suc_le_eq order_le_less)

lemma siftup_heap:
  assumes "heap_from (Suc i) h" "i < length h"
  shows "heap_from i (siftup h i)"
proof -
  obtain h' p' where e: "siftup_loop h (length h) i = (h', p')"
    by (cases "siftup_loop h (length h) i")
  have r: "below i p'" "p' < length h'" "hole_inv i h' p'" "length h' \<le> 2 * p' + 1"
    using siftup_loop_heap [OF below_refl assms(2) heap_from_imp_hole_inv [OF assms(1)]] e
    by simp_all
  let ?g = "h'[p' := h ! i]"
  have leaf: "\<forall>j<length ?g. 0 < j \<and> parent j = p' \<longrightarrow> entry_le (h ! i) (?g ! j)"
  proof (intro allI impI)
    fix j
    assume "j < length ?g" and "0 < j \<and> parent j = p'"
    then have "j = 2 * p' + 1 \<or> j = 2 * p' + 2" "j < length h'"
      using parent_cases by auto
    then have False
      using r(4) by auto
    then show "entry_le (h ! i) (?g ! j)" ..
  qed
  have "heap_from i (siftdown_loop ?g i p' (h ! i))"
    by (rule siftdown_loop_heap) (use r leaf in simp_all)
  then show ?thesis
    using r(2) by (simp add: siftup_def e siftdown_def Let_def)
qed

definition is_heap :: "entry list \<Rightarrow> bool" where
  "is_heap h = heap_from 0 h"

lemma is_heap_Nil [simp]: "is_heap []"
  by (simp add: is_heap_def heap_from_def)

lemma heappush_heap:
  assumes "is_heap h"
  shows "is_heap (heappush h x)"
proof -
  let ?g = "h @ [x]"
  have inv: "hole_inv 0 ?g (length h)"
    unfolding hole_inv_def
  proof (intro conjI allI impI)
    fix j
    assume "j < length ?g" and c: "0 < j \<and> 0 \<le> parent j \<and> j \<noteq> length h \<and> parent j \<noteq> length h"
    then have jl: "j < length h" and j0: "0 < j"
      by auto
    have "parent j < length h"
      using parent_less [OF j0] jl by simp
    then show "entry_le (?g ! parent j) (?g ! j)"
      using assms jl j0 by (simp add: is_heap_def heap_from_def nth_append)
  next
    fix j
    assume "j < length ?g" and "0 < j \<and> parent j = length h"
    then have False
      using parent_cases [of j "length h"] by auto
    then show "entry_le (?g ! parent (length h)) (?g ! j)" ..
  qed
  have leaf: "\<forall>j<length ?g. 0 < j \<and> parent j = length h \<longrightarrow> entry_le x (?g ! j)"
  proof (intro allI impI)
    fix j
    assume "j < length ?g" and "0 < j \<and> parent j = length h"
    then have False
      using parent_cases [of j "length h"] by auto
    then show "entry_le x (?g ! j)" ..
  qed
  have "heap_from 0 (siftdown_loop ?g 0 (length h) x)"
    by (rule siftdown_loop_heap) (use inv leaf below_zero in simp_all)
  then show ?thesis
    by (simp add: heappush_def siftdown_def is_heap_def)
qed

lemma heap_from_butlast: "heap_from st h \<Longrightarrow> heap_from st (butlast h)"
proof -
  assume a: "heap_from st h"
  show ?thesis
    unfolding heap_from_def
  proof (intro allI impI)
    fix j
    assume j: "j < length (butlast h)" and c: "0 < j \<and> st \<le> parent j"
    then have "parent j < length (butlast h)"
      using parent_less [of j] by simp
    then show "entry_le (butlast h ! parent j) (butlast h ! j)"
      using a j c by (simp add: heap_from_def nth_butlast)
  qed
qed

lemma heap_from_mono: "heap_from st h \<Longrightarrow> st \<le> st' \<Longrightarrow> heap_from st' h"
  by (simp add: heap_from_def)

lemma heap_from_update_below: "heap_from (Suc i) h \<Longrightarrow> heap_from (Suc i) (h[i := y])"
proof -
  assume a: "heap_from (Suc i) h"
  show ?thesis
    unfolding heap_from_def
  proof (intro allI impI)
    fix j
    assume j: "j < length (h[i := y])" and c: "0 < j \<and> Suc i \<le> parent j"
    then have "i < parent j" "parent j < j"
      using parent_less [of j] by simp_all
    then show "entry_le (h[i := y] ! parent j) (h[i := y] ! j)"
      using a j c by (simp add: heap_from_def)
  qed
qed

lemma heappop_heap:
  assumes "is_heap h" "heappop h = Some (x, h')"
  shows "is_heap h'"
proof (cases "butlast h = []")
  case True
  then show ?thesis
    using assms(2) by (auto simp: heappop_def Let_def split: if_splits)
next
  case False
  then have h': "h' = siftup ((butlast h)[0 := last h]) 0"
    using assms(2) by (auto simp: heappop_def Let_def split: if_splits)
  have "heap_from (Suc 0) ((butlast h)[0 := last h])"
    using heap_from_update_below [OF heap_from_mono [OF heap_from_butlast]] assms(1)
    by (simp add: is_heap_def)
  then show ?thesis
    unfolding h' is_heap_def using False by (intro siftup_heap) (simp_all add: length_greater_0_conv [symmetric] del: length_greater_0_conv)
qed

lemma heap_from_half: "length h div 2 \<le> st \<Longrightarrow> heap_from st h"
proof -
  assume a: "length h div 2 \<le> st"
  show ?thesis
    unfolding heap_from_def
  proof (intro allI impI)
    fix j
    assume j: "j < length h" and c: "0 < j \<and> st \<le> parent j"
    have "j = 2 * parent j + 1 \<or> j = 2 * parent j + 2"
      using parent_cases c by simp
    then have False
      using a j c by auto
    then show "entry_le (h ! parent j) (h ! j)" ..
  qed
qed

lemma heapify_aux_heap:
  "heap_from k h \<Longrightarrow> k \<le> length h \<Longrightarrow> heap_from 0 (fold (\<lambda>i h. siftup h i) (rev [0 ..< k]) h)"
proof (induction k arbitrary: h)
  case 0
  then show ?case by simp
next
  case (Suc k)
  have "heap_from k (siftup h k)"
    using siftup_heap Suc.prems by simp
  then show ?case
    using Suc.IH [of "siftup h k"] Suc.prems(2) by simp
qed

lemma heapify_heap: "is_heap (heapify h)"
  unfolding is_heap_def heapify_def
  by (rule heapify_aux_heap) (simp_all add: heap_from_half)

lemma heap_root_le:
  assumes "is_heap h" "j < length h"
  shows "entry_le (h ! 0) (h ! j)"
  using assms(2)
proof (induction j rule: less_induct)
  case (less j)
  show ?case
  proof (cases "j = 0")
    case True
    then show ?thesis by simp
  next
    case False
    then have j0: "0 < j" by simp
    have "entry_le (h ! 0) (h ! parent j)"
      using less parent_less [OF j0] by simp
    moreover have "entry_le (h ! parent j) (h ! j)"
      using assms(1) less.prems j0 by (simp add: is_heap_def heap_from_def)
    ultimately show ?thesis
      by (rule entry_le_trans)
  qed
qed


lemma mset_move_hole:
  assumes "i < length h" "j < length h" "i \<noteq> j"
  shows "mset (h[i := h ! j, j := x]) = mset (h[i := x])"
proof -
  let ?g = "h[i := x]"
  have "?g[i := ?g ! j, j := ?g ! i] = h[i := h ! j, j := x]"
    using assms by (simp add: list_update_swap)
  moreover have "mset (?g[i := ?g ! j, j := ?g ! i]) = mset ?g"
    using mset_swap [of j ?g i] assms by simp
  ultimately show ?thesis by simp
qed

lemma mset_siftdown_loop:
  "pos < length h \<Longrightarrow> mset (siftdown_loop h st pos x) = mset (h[pos := x])"
proof (induction h st pos x rule: siftdown_loop.induct)
  case (1 heap startpos pos newitem)
  show ?case
  proof (cases "startpos < pos \<and> entry_lt newitem (heap ! parent pos)")
    case True
    then have pl: "parent pos < pos"
      using parent_less [of pos] by simp
    have "mset (siftdown_loop (heap[pos := heap ! parent pos]) startpos (parent pos) newitem)
          = mset (heap[pos := heap ! parent pos, parent pos := newitem])"
      using "1.IH" [of "parent pos" "heap ! parent pos"] True pl "1.prems" by (simp add: parent_def)
    also have "\<dots> = mset (heap[pos := newitem])"
      using mset_move_hole [of pos heap "parent pos" newitem] pl "1.prems" by simp
    finally show ?thesis
      using True by (subst siftdown_loop.simps) (simp add: Let_def parent_def)
  next
    case False
    then show ?thesis
      by (subst siftdown_loop.simps) (auto simp: Let_def parent_def)
  qed
qed

lemma mset_siftup_loop:
  "pos < length h \<Longrightarrow>
     (case siftup_loop h (length h) pos of (h', p') \<Rightarrow> mset (h'[p' := x]) = mset (h[pos := x]))"
proof (induction h "length h" pos rule: siftup_loop.induct)
  case (1 heap pos)
  let ?n = "length heap"
  show ?case
  proof (cases "2 * pos + 1 < ?n")
    case False
    then have "siftup_loop heap ?n pos = (heap, pos)"
      by (subst siftup_loop.simps) (simp add: Let_def)
    then show ?thesis by simp
  next
    case True
    define c where "c = (if 2 * pos + 2 < ?n \<and> \<not> entry_lt (heap ! (2 * pos + 1)) (heap ! (2 * pos + 2))
                          then 2 * pos + 2 else 2 * pos + 1)"
    let ?h1 = "heap[pos := heap ! c]"
    have c_len: "c < ?n" and c_pos: "pos \<noteq> c"
      using True by (auto simp: c_def)
    have unfold: "siftup_loop heap ?n pos = siftup_loop ?h1 ?n c"
      using True by (subst siftup_loop.simps) (simp add: Let_def c_def)
    have "case siftup_loop ?h1 (length ?h1) c of (h', p') \<Rightarrow> mset (h'[p' := x]) = mset (?h1[c := x])"
    proof (rule "1.hyps")
      show "2 * pos + 1 = 2 * pos + 1" by simp
      show "2 * pos + 1 < ?n" using True .
      show "2 * pos + 1 + 1 = 2 * pos + 1 + 1" by simp
      show "c = (if 2 * pos + 1 + 1 < ?n \<and> \<not> entry_lt (heap ! (2 * pos + 1)) (heap ! (2 * pos + 1 + 1))
                 then 2 * pos + 1 + 1 else 2 * pos + 1)"
        by (simp add: c_def)
      show "length heap = length ?h1" by simp
      show "c < length ?h1" using c_len by simp
    qed
    moreover have "mset (?h1[c := x]) = mset (heap[pos := x])"
      using mset_move_hole [OF "1.prems" c_len c_pos] .
    ultimately show ?thesis
      using unfold by (simp split: prod.splits)
  qed
qed

lemma siftup_loop_pos:
  "pos < length h \<Longrightarrow> snd (siftup_loop h (length h) pos) < length h"
proof (induction h "length h" pos rule: siftup_loop.induct)
  case (1 heap pos)
  let ?n = "length heap"
  show ?case
  proof (cases "2 * pos + 1 < ?n")
    case False
    then have "siftup_loop heap ?n pos = (heap, pos)"
      by (subst siftup_loop.simps) (simp add: Let_def)
    then show ?thesis using "1.prems" by simp
  next
    case True
    define c where "c = (if 2 * pos + 2 < ?n \<and> \<not> entry_lt (heap ! (2 * pos + 1)) (heap ! (2 * pos + 2))
                          then 2 * pos + 2 else 2 * pos + 1)"
    let ?h1 = "heap[pos := heap ! c]"
    have c_len: "c < ?n"
      using True by (auto simp: c_def)
    have unfold: "siftup_loop heap ?n pos = siftup_loop ?h1 ?n c"
      using True by (subst siftup_loop.simps) (simp add: Let_def c_def)
    have "snd (siftup_loop ?h1 (length ?h1) c) < length ?h1"
    proof (rule "1.hyps")
      show "2 * pos + 1 = 2 * pos + 1" by simp
      show "2 * pos + 1 < ?n" using True .
      show "2 * pos + 1 + 1 = 2 * pos + 1 + 1" by simp
      show "c = (if 2 * pos + 1 + 1 < ?n \<and> \<not> entry_lt (heap ! (2 * pos + 1)) (heap ! (2 * pos + 1 + 1))
                 then 2 * pos + 1 + 1 else 2 * pos + 1)"
        by (simp add: c_def)
      show "length heap = length ?h1" by simp
      show "c < length ?h1" using c_len by simp
    qed
    then show ?thesis
      using unfold by simp
  qed
qed

lemma mset_siftup: "i < length h \<Longrightarrow> mset (siftup h i) = mset h"
proof -
  assume a: "i < length h"
  obtain h' p' where e: "siftup_loop h (length h) i = (h', p')"
    by (cases "siftup_loop h (length h) i")
  have m: "mset (h'[p' := h ! i]) = mset h"
    using mset_siftup_loop [OF a, of "h ! i"] e by simp
  have l: "length h' = length h"
    using length_siftup_loop [of h "length h" i] e by simp
  have "p' < length h'"
    using siftup_loop_pos [OF a] e l by simp
  then show ?thesis
    using m by (simp add: siftup_def e siftdown_def Let_def mset_siftdown_loop)
qed

lemma mset_heappush: "mset (heappush h x) = add_mset x (mset h)"
  by (simp add: heappush_def siftdown_def mset_siftdown_loop)

lemma heappop_root: "heappop h = Some (x, h') \<Longrightarrow> x = h ! 0"
  by (cases h rule: rev_cases) (auto simp: heappop_def Let_def nth_append split: if_splits)

lemma heappop_Nil [simp]: "heappop [] = None"
  by (simp add: heappop_def)

lemma mset_heappop:
  assumes "heappop h = Some (x, h')"
  shows "mset h = add_mset x (mset h')"
proof (cases h rule: rev_cases)
  case Nil
  then show ?thesis
    using assms by simp
next
  case (snoc ys y)
  show ?thesis
  proof (cases "ys = []")
    case True
    then show ?thesis
      using assms snoc by (auto simp: heappop_def Let_def)
  next
    case False
    then have x: "x = ys ! 0" and h': "h' = siftup (ys[0 := y]) 0"
      using assms snoc by (auto simp: heappop_def Let_def)
    have "mset h' = mset (ys[0 := y])"
      unfolding h' using False by (intro mset_siftup) simp
    also have "\<dots> = add_mset y (mset ys - {#ys ! 0#})"
      using False by (simp add: mset_update)
    finally show ?thesis
      using snoc x False by simp
  qed
qed

lemma mset_heapify_aux:
  "set is \<subseteq> {..<length h} \<Longrightarrow> mset (fold (\<lambda>i h. siftup h i) is h) = mset h"
  by (induction "is" arbitrary: h) (simp_all add: mset_siftup)

lemma mset_heapify: "mset (heapify h) = mset h"
  unfolding heapify_def by (rule mset_heapify_aux) auto

section \<open>The order book\<close>

record OrderBook =
  bids :: "entry list"
  asks :: "entry list"
  order_map :: "int \<rightharpoonup> Order"
  trades :: "Trade list"
  next_order_id :: int
  last_trade_price :: real

definition init :: OrderBook where
  "init = \<lparr>bids = [], asks = [], order_map = Map.empty, trades = [],
           next_order_id = 1, last_trade_price = 100\<rparr>"

text \<open>
  The \<^verbatim>\<open>Order\<close> object in a heap entry is the object stored in \<^verbatim>\<open>order_map\<close> under its
  id (\<^verbatim>\<open>add_order\<close> puts the same object in both, and \<^verbatim>\<open>add_order_api\<close> gives every object
  a fresh id). \<^verbatim>\<open>best.quantity -= q\<close> on the root of a heap is therefore seen through the
  index as well, as long as the id is still indexed.
\<close>

definition set_root_quantity :: "entry list \<Rightarrow> int \<Rightarrow> entry list" where
  "set_root_quantity heap q =
     (case heap ! 0 of (k, t, ord) \<Rightarrow> heap[0 := (k, t, ord\<lparr>quantity := q\<rparr>)])"

definition sync_index :: "(int \<rightharpoonup> Order) \<Rightarrow> Order \<Rightarrow> int \<Rightarrow> (int \<rightharpoonup> Order)" where
  "sync_index m ord q =
     (case m (order_id ord) of None \<Rightarrow> m
      | Some _ \<Rightarrow> m(order_id ord \<mapsto> ord\<lparr>quantity := q\<rparr>))"

text \<open>
  \<^verbatim>\<open>time.time()\<close> is an input of the program. Every operation takes the readings of
  the clock made during the call as a function \<open>clock\<close>, reading number \<open>n\<close> being
  \<open>clock n\<close>; the loops carry the number of the next reading.
\<close>

text \<open>
  \<^verbatim>\<open>best.quantity -= trade_quantity\<close> on the root \<^verbatim>\<open>best = heap[0][2]\<close> of a side,
  followed by \<^verbatim>\<open>if best.quantity == 0: heapq.heappop(heap)\<close>. Reading \<^verbatim>\<open>heap[0]\<close> of
  an empty list raises IndexError: \<open>None\<close>.
\<close>

definition fill_root :: "entry list \<Rightarrow> int \<Rightarrow> entry list option" where
  "fill_root heap trade_quantity =
     (if heap = [] then None
      else (let best = entry_order (heap ! 0);
                heap1 = set_root_quantity heap (quantity best - trade_quantity)
            in if quantity best - trade_quantity = 0 then map_option snd (heappop heap1)
               else Some heap1))"

text \<open>
  One pass through the body of the loop of \<^verbatim>\<open>match_orders\<close>, entered with both sides
  non-empty and the best bid priced at or above the best ask; \<open>now\<close> is the clock reading
  of the trade.
\<close>

definition match_step :: "real \<Rightarrow> OrderBook \<Rightarrow> OrderBook option" where
  "match_step now s =
     (let best_bid = entry_order (bids s ! 0);
          best_ask = entry_order (asks s ! 0);
          trade_quantity = min (quantity best_bid) (quantity best_ask);
          trade_price = price best_ask;
          trade_side = (if timestamp best_bid > timestamp best_ask then BUY else SELL)
      in case fill_root (bids s) trade_quantity of
           None \<Rightarrow> None
         | Some bids' \<Rightarrow>
             (case fill_root (asks s) trade_quantity of
                None \<Rightarrow> None
              | Some asks' \<Rightarrow>
                  Some (s\<lparr>bids := bids', asks := asks',
                          order_map :=
                            sync_index
                              (sync_index (order_map s) best_bid (quantity best_bid - trade_quantity))
                              best_ask (quantity best_ask - trade_quantity),
                          trades := trades s @ [Trade now trade_price trade_quantity trade_side],
                          last_trade_price := trade_price\<rparr>)))"

function match_orders :: "(nat \<Rightarrow> real) \<Rightarrow> nat \<Rightarrow> OrderBook \<Rightarrow> OrderBook option" where
  "match_orders clock n s =
     (if bids s \<noteq> [] \<and> asks s \<noteq> [] then
        (if price (entry_order (bids s ! 0)) \<ge> price (entry_order (asks s ! 0)) then
           (case match_step (clock n) s of
              None \<Rightarrow> None
            | Some s' \<Rightarrow> match_orders clock (Suc n) s')
         else Some s)
      else Some s)"
  by pat_completeness auto

text \<open>
  The bodies of the two loops of \<^verbatim>\<open>_handle_market_order\<close>. The market order is a local
  object whose quantity the loop decrements; it is returned with the book.
\<close>

definition market_buy_step :: "real \<Rightarrow> Order \<Rightarrow> OrderBook \<Rightarrow> (Order \<times> OrderBook) option" where
  "market_buy_step now market_order s =
     (let best_ask = entry_order (asks s ! 0);
          trade_quantity = min (quantity market_order) (quantity best_ask);
          trade_price = price best_ask
      in case fill_root (asks s) trade_quantity of
           None \<Rightarrow> None
         | Some asks' \<Rightarrow>
             Some (market_order\<lparr>quantity := quantity market_order - trade_quantity\<rparr>,
                   s\<lparr>asks := asks',
                     order_map := sync_index (order_map s) best_ask (quantity best_ask - trade_quantity),
                     trades := trades s @ [Trade now trade_price trade_quantity BUY],
                     last_trade_price := trade_price\<rparr>))"

definition market_sell_step :: "real \<Rightarrow> Order \<Rightarrow> OrderBook \<Rightarrow> (Order \<times> OrderBook) option" where
  "market_sell_step now market_order s =
     (let best_bid = entry_order (bids s ! 0);
          trade_quantity = min (quantity market_order) (quantity best_bid);
          trade_price = price best_bid
      in case fill_root (bids s) trade_quantity of
           None \<Rightarrow> None
         | Some bids' \<Rightarrow>
             Some (market_order\<lparr>quantity := quantity market_order - trade_quantity\<rparr>,
                   s\<lparr>bids := bids',
                     order_map := sync_index (order_map s) best_bid (quantity best_bid - trade_quantity),
                     trades := trades s @ [Trade now trade_price trade_quantity SELL],
                     last_trade_price := trade_price\<rparr>))"

function market_buy_loop ::
  "(nat \<Rightarrow> real) \<Rightarrow> nat \<Rightarrow> Order \<Rightarrow> OrderBook \<Rightarrow> (Order \<times> OrderBook) option" where
  "market_buy_loop clock n market_order s =
     (if quantity market_order > 0 \<and> asks s \<noteq> [] then
        (case market_buy_step (clock n) market_order s of
           None \<Rightarrow> None
         | Some (market_order', s') \<Rightarrow> market_buy_loop clock (Suc n) market_order' s')
      else Some (market_order, s))"
  by pat_completeness auto

function market_sell_loop ::
  "(nat \<Rightarrow> real) \<Rightarrow> nat \<Rightarrow> Order \<Rightarrow> OrderBook \<Rightarrow> (Order \<times> OrderBook) option" where
  "market_sell_loop clock n market_order s =
     (if quantity market_order > 0 \<and> bids s \<noteq> [] then
        (case market_sell_step (clock n) market_order s of
           None \<Rightarrow> None
         | Some (market_order', s') \<Rightarrow> market_sell_loop clock (Suc n) market_order' s')
      else Some (market_order, s))"
  by pat_completeness auto

subsection \<open>Termination of the three loops\<close>

lemma length_set_root_quantity [simp]: "length (set_root_quantity h q) = length h"
  by (simp add: set_root_quantity_def split: prod.splits)

lemma set_root_quantity_Nil [simp]: "set_root_quantity h q = [] \<longleftrightarrow> h = []"
  using length_set_root_quantity [of h q] by (metis length_0_conv)

lemma fill_root_length:
  "fill_root h q = Some h' \<Longrightarrow>
     length h' = (if quantity (entry_order (h ! 0)) = q then length h - 1 else length h)"
  by (auto simp: fill_root_def Let_def split: if_splits dest: length_heappop)

lemma fill_root_total: "h \<noteq> [] \<Longrightarrow> \<exists>h'. fill_root h q = Some h'"
  by (cases "heappop (set_root_quantity h 0)") (auto simp: fill_root_def Let_def)

lemma match_step_length:
  assumes "match_step now s = Some s'" "bids s \<noteq> []" "asks s \<noteq> []"
  shows "length (bids s') + length (asks s') < length (bids s) + length (asks s)"
proof -
  define qb where "qb = quantity (entry_order (bids s ! 0))"
  define qa where "qa = quantity (entry_order (asks s ! 0))"
  from assms(1) obtain bs as where
    b: "fill_root (bids s) (min qb qa) = Some bs" and a: "fill_root (asks s) (min qb qa) = Some as"
    and s': "bids s' = bs" "asks s' = as"
    by (auto simp: match_step_def Let_def qb_def qa_def split: option.splits)
  have lb: "length bs = (if qb = min qb qa then length (bids s) - 1 else length (bids s))"
    using fill_root_length [OF b] by (simp add: qb_def)
  have la: "length as = (if qa = min qb qa then length (asks s) - 1 else length (asks s))"
    using fill_root_length [OF a] by (simp add: qa_def)
  show ?thesis
    using assms(2,3) unfolding s' lb la
    by (cases "bids s"; cases "asks s") (auto simp: min_def split: if_splits)
qed

termination match_orders
  by (relation "measure (\<lambda>(clock, n, s). length (bids s) + length (asks s))")
     (auto dest: match_step_length)

lemma market_buy_step_measure:
  assumes "market_buy_step now mo s = Some (mo', s')" "quantity mo > 0" "asks s \<noteq> []"
  shows "2 * length (asks s') + (if quantity mo' > 0 then 1 else 0) < 2 * length (asks s) + 1"
proof -
  define qa where "qa = quantity (entry_order (asks s ! 0))"
  define qm where "qm = quantity mo"
  from assms(1) obtain as where
    a: "fill_root (asks s) (min qm qa) = Some as"
    and s': "asks s' = as" "quantity mo' = qm - min qm qa"
    by (auto simp: market_buy_step_def Let_def qa_def qm_def split: option.splits)
  have la: "length as = (if qa = min qm qa then length (asks s) - 1 else length (asks s))"
    using fill_root_length [OF a] by (simp add: qa_def)
  show ?thesis
    using assms(3) unfolding s' la
    by (cases "asks s") (auto simp: min_def split: if_splits)
qed

lemma market_sell_step_measure:
  assumes "market_sell_step now mo s = Some (mo', s')" "quantity mo > 0" "bids s \<noteq> []"
  shows "2 * length (bids s') + (if quantity mo' > 0 then 1 else 0) < 2 * length (bids s) + 1"
proof -
  define qb where "qb = quantity (entry_order (bids s ! 0))"
  define qm where "qm = quantity mo"
  from assms(1) obtain bs where
    b: "fill_root (bids s) (min qm qb) = Some bs"
    and s': "bids s' = bs" "quantity mo' = qm - min qm qb"
    by (auto simp: market_sell_step_def Let_def qb_def qm_def split: option.splits)
  have lb: "length bs = (if qb = min qm qb then length (bids s) - 1 else length (bids s))"
    using fill_root_length [OF b] by (simp add: qb_def)
  show ?thesis
    using assms(3) unfolding s' lb
    by (cases "bids s") (auto simp: min_def split: if_splits)
qed

termination market_buy_loop
  by (relation "measure (\<lambda>(clock, n, mo, s). 2 * length (asks s) + (if quantity mo > 0 then 1 else 0))")
     (auto dest: market_buy_step_measure)

termination market_sell_loop
  by (relation "measure (\<lambda>(clock, n, mo, s). 2 * length (bids s) + (if quantity mo > 0 then 1 else 0))")
     (auto dest: market_sell_step_measure)

declare match_orders.simps [simp del]
declare market_buy_loop.simps [simp del]
declare market_sell_loop.simps [simp del]

text \<open>
  \<^verbatim>\<open>_handle_market_order\<close>: the result is the returned flag, the market order as the
  loop left it, and the book.
\<close>

definition handle_market_order ::
  "(nat \<Rightarrow> real) \<Rightarrow> Order \<Rightarrow> OrderBook \<Rightarrow> (bool \<times> Order \<times> OrderBook) option" where
  "handle_market_order clock market_order s =
     (if side market_order = BUY then
        (if asks s = [] then Some (False, market_order, s)
         else map_option (\<lambda>(mo, s'). (True, mo, s')) (market_buy_loop clock 0 market_order s))
      else
        (if bids s = [] then Some (False, market_order, s)
         else map_option (\<lambda>(mo, s'). (True, mo, s')) (market_sell_loop clock 0 market_order s)))"

definition add_order :: "(nat \<Rightarrow> real) \<Rightarrow> Order \<Rightarrow> OrderBook \<Rightarrow> (bool \<times> OrderBook) option" where
  "add_order clock ord s =
     (if order_type ord = MARKET then
        (case handle_market_order clock ord s of
           None \<Rightarrow> None
         | Some (success, mo, s') \<Rightarrow> if \<not> success then Some (False, s') else Some (True, s'))
      else
        (let s1 = (if side ord = BUY
                   then s\<lparr>bids := heappush (bids s) (- price ord, timestamp ord, ord)\<rparr>
                   else s\<lparr>asks := heappush (asks s) (price ord, timestamp ord, ord)\<rparr>);
             s2 = s1\<lparr>order_map := (order_map s1)(order_id ord \<mapsto> ord)\<rparr>
         in map_option (\<lambda>s3. (True, s3)) (match_orders clock 0 s2)))"

text \<open>
  \<^verbatim>\<open>add_order_api\<close>: reading 0 of the clock stamps the order, the later readings are
  those of the trades.
\<close>

definition add_order_api ::
  "(nat \<Rightarrow> real) \<Rightarrow> side \<Rightarrow> real \<Rightarrow> int \<Rightarrow> order_type \<Rightarrow> string \<Rightarrow> OrderBook
     \<Rightarrow> ((bool \<times> int option) \<times> OrderBook) option" where
  "add_order_api clock sd pr qty ty name s =
     (let oid = next_order_id s;
          s0 = s\<lparr>next_order_id := next_order_id s + 1\<rparr>;
          ord = \<lparr>order_id = oid, side = sd, price = pr, quantity = qty, order_type = ty,
                 timestamp = clock 0, participant_name = name\<rparr>
      in map_option (\<lambda>(success, s'). ((success, if success then Some oid else None), s'))
           (add_order (\<lambda>n. clock (Suc n)) ord s0))"

definition get_order_book :: "OrderBook \<Rightarrow> (real \<times> int) list \<times> (real \<times> int) list" where
  "get_order_book s =
     (rev (sort (map (\<lambda>(p, t, ord). (- p, quantity ord)) (bids s))),
      sort (map (\<lambda>(p, t, ord). (p, quantity ord)) (asks s)))"

text \<open>
  The value of a Python float expression is a finite double, an infinity or NaN.
\<close>

datatype pyfloat = Finite real | PosInf | NegInf | NaN

text \<open>
  \<^verbatim>\<open>get_mid_price\<close> evaluates \<^verbatim>\<open>(bids[0][0] + asks[0][0]) / 2\<close> on floats: the sum is
  rounded and can overflow to an infinity, and the quotient is rounded too. The float addition of
  two finite floats and the float division by 2 are the parameters \<open>float_add\<close> and
  \<open>float_half\<close>, so that nothing is assumed of the rounding; the other branch returns
  the stored float unchanged.
\<close>

definition get_mid_price ::
  "(real \<Rightarrow> real \<Rightarrow> pyfloat) \<Rightarrow> (pyfloat \<Rightarrow> pyfloat) \<Rightarrow> OrderBook \<Rightarrow> pyfloat" where
  "get_mid_price float_add float_half s =
     (case get_order_book s of (bs, as) \<Rightarrow>
        if bs \<noteq> [] \<and> as \<noteq> [] then float_half (float_add (fst (bs ! 0)) (fst (as ! 0)))
        else Finite (last_trade_price s))"

text \<open>
  The arithmetic of CPython's floats, IEEE 754 binary64 with rounding to nearest, ties to
  even: \<open>round_to_double x\<close> is the float nearest to the real \<open>x\<close>.
  \<open>float_exponent a\<close> is the binary exponent of the floats around \<open>a\<close>: the \<open>k\<close> with
  \<open>2 powi k \<le> a < 2 powi (k + 1)\<close>, kept between that of the smallest normal number,
  - 1022, and that of the largest float, 1023; it is found by counting up from - 1022. The
  floats around \<open>x\<close> are the multiples of \<open>2 powi (float_exponent \<bar>x\<bar> - 52)\<close>, and
  \<open>x\<close> is rounded to the nearest of them, to the even one at a tie; a result of magnitude
  \<open>2 powi 1024\<close> is beyond the largest float and becomes an infinity. The sum of two finite
  floats is their exact sum rounded, and so is the quotient by 2; an infinity or NaN divided
  by 2 is itself.
\<close>

definition round_half_even :: "real \<Rightarrow> int" where
  "round_half_even r =
     (let f = \<lfloor>r\<rfloor>; d = r - of_int f
      in if d < 1 / 2 then f else if 1 / 2 < d then f + 1 else if even f then f else f + 1)"

fun exponent_from :: "nat \<Rightarrow> int \<Rightarrow> real \<Rightarrow> int" where
  "exponent_from 0 k a = k"
| "exponent_from (Suc n) k a = (if 2 powi (k + 1) \<le> a then exponent_from n (k + 1) a else k)"

definition float_exponent :: "real \<Rightarrow> int" where
  "float_exponent a = exponent_from 2045 (- 1022) a"

definition round_to_double :: "real \<Rightarrow> pyfloat" where
  "round_to_double x =
     (let u = 2 powi (float_exponent \<bar>x\<bar> - 52);
          y = of_int (round_half_even (x / u)) * u
      in if 2 powi 1024 \<le> \<bar>y\<bar> then (if 0 < x then PosInf else NegInf) else Finite y)"

definition double_add :: "real \<Rightarrow> real \<Rightarrow> pyfloat" where
  "double_add a b = round_to_double (a + b)"

definition double_half :: "pyfloat \<Rightarrow> pyfloat" where
  "double_half x =
     (case x of Finite a \<Rightarrow> round_to_double (a / 2) | PosInf \<Rightarrow> PosInf | NegInf \<Rightarrow> NegInf
      | NaN \<Rightarrow> NaN)"

definition cancel_order :: "int \<Rightarrow> OrderBook \<Rightarrow> bool \<times> OrderBook" where
  "cancel_order oid s =
     (case order_map s oid of
        None \<Rightarrow> (False, s)
      | Some ord \<Rightarrow>
          (let s1 = s\<lparr>order_map := (order_map s)(oid := None)\<rparr>
           in if side ord = BUY
              then (True, s1\<lparr>bids := heapify (filter (\<lambda>(p, t, x). order_id x \<noteq> oid) (bids s1))\<rparr>)
              else (True, s1\<lparr>asks := heapify (filter (\<lambda>(p, t, x). order_id x \<noteq> oid) (asks s1))\<rparr>)))"

section \<open>Filling the best order of a side\<close>

text \<open>
  \<open>dec_entry e q\<close> is the entry \<open>e\<close> after \<^verbatim>\<open>order.quantity -= q\<close>; \<open>total_quantity\<close> is
  the quantity resting on a side.
\<close>

definition dec_entry :: "entry \<Rightarrow> int \<Rightarrow> entry" where
  "dec_entry e q = (fst e, fst (snd e), (entry_order e)\<lparr>quantity := quantity (entry_order e) - q\<rparr>)"

lemma set_root_quantity_eq:
  "set_root_quantity h (quantity (entry_order (h ! 0)) - q) = h[0 := dec_entry (h ! 0) q]"
  by (cases "h ! 0") (simp add: set_root_quantity_def dec_entry_def entry_order_def)

lemma entry_le_dec_left [simp]: "entry_le (dec_entry a q) b = entry_le a b"
  by (simp add: entry_le_def entry_lt_iff dec_entry_def entry_order_def)

lemma entry_le_dec_right [simp]: "entry_le a (dec_entry b q) = entry_le a b"
  by (simp add: entry_le_def entry_lt_iff dec_entry_def entry_order_def)

lemma heap_from_dec_root:
  assumes "heap_from st h"
  shows "heap_from st (h[0 := dec_entry (h ! 0) q])"
  unfolding heap_from_def
proof (intro allI impI)
  fix j
  assume j: "j < length (h[0 := dec_entry (h ! 0) q])" and c: "0 < j \<and> st \<le> parent j"
  then have "entry_le (h ! parent j) (h ! j)"
    using assms by (simp add: heap_from_def)
  moreover have "h \<noteq> []"
    using j by auto
  ultimately show "entry_le (h[0 := dec_entry (h ! 0) q] ! parent j) (h[0 := dec_entry (h ! 0) q] ! j)"
    using j c parent_less [of j] by (cases "parent j = 0") (simp_all add: nth_list_update)
qed

lemma fill_root_alt:
  "h \<noteq> [] \<Longrightarrow> fill_root h q =
     (if quantity (entry_order (h ! 0)) = q
      then map_option snd (heappop (h[0 := dec_entry (h ! 0) q]))
      else Some (h[0 := dec_entry (h ! 0) q]))"
  unfolding fill_root_def Let_def set_root_quantity_eq by simp

lemma fill_root_cases:
  assumes "h \<noteq> []" "fill_root h q = Some h'"
  shows "(quantity (entry_order (h ! 0)) = q \<and> heappop (h[0 := dec_entry (h ! 0) q]) = Some (dec_entry (h ! 0) q, h'))
       \<or> (quantity (entry_order (h ! 0)) \<noteq> q \<and> h' = h[0 := dec_entry (h ! 0) q])"
proof (cases "quantity (entry_order (h ! 0)) = q")
  case True
  let ?g = "h[0 := dec_entry (h ! 0) q]"
  have "map_option snd (heappop ?g) = Some h'"
    using assms(2) True unfolding fill_root_alt [OF assms(1)] by simp
  then obtain x where p: "heappop ?g = Some (x, h')"
    by (cases "heappop ?g") auto
  have "x = ?g ! 0"
    using heappop_root [OF p] .
  then have "x = dec_entry (h ! 0) q"
    using assms(1) by simp
  then show ?thesis
    using True p by simp
next
  case False
  then show ?thesis
    using assms(2) unfolding fill_root_alt [OF assms(1)] by simp
qed

lemma fill_root_heap:
  assumes "is_heap h" "fill_root h q = Some h'" "h \<noteq> []"
  shows "is_heap h'"
proof -
  have g: "is_heap (h[0 := dec_entry (h ! 0) q])"
    using heap_from_dec_root assms(1) by (simp add: is_heap_def)
  from fill_root_cases [OF assms(3,2)] show ?thesis
  proof
    assume "quantity (entry_order (h ! 0)) = q \<and>
      heappop (h[0 := dec_entry (h ! 0) q]) = Some (dec_entry (h ! 0) q, h')"
    then show ?thesis
      using heappop_heap [OF g] by blast
  next
    assume "quantity (entry_order (h ! 0)) \<noteq> q \<and> h' = h[0 := dec_entry (h ! 0) q]"
    then show ?thesis
      using g by simp
  qed
qed

lemma fill_root_mset:
  assumes "h \<noteq> []" "fill_root h q = Some h'"
  shows "mset h' = (if quantity (entry_order (h ! 0)) = q then mset h - {#h ! 0#}
                    else add_mset (dec_entry (h ! 0) q) (mset h - {#h ! 0#}))"
proof -
  let ?g = "h[0 := dec_entry (h ! 0) q]"
  have g: "mset ?g = add_mset (dec_entry (h ! 0) q) (mset h - {#h ! 0#})"
    using assms(1) by (simp add: mset_update)
  show ?thesis
    using fill_root_cases [OF assms] g mset_heappop [of ?g "dec_entry (h ! 0) q" h'] by auto
qed

lemma fill_root_set:
  assumes "h \<noteq> []" "fill_root h q = Some h'" "e \<in> set h'"
  shows "e \<in> set h \<or> (e = dec_entry (h ! 0) q \<and> quantity (entry_order (h ! 0)) \<noteq> q)"
proof -
  have "e \<in># mset h'"
    using assms(3) by simp
  then show ?thesis
    unfolding fill_root_mset [OF assms(1,2)]
    by (auto split: if_splits dest: in_diffD)
qed

definition total_quantity :: "entry list \<Rightarrow> int" where
  "total_quantity h = sum_list (map (\<lambda>e. quantity (entry_order e)) h)"

lemma total_quantity_mset: "total_quantity h = sum_mset (image_mset (\<lambda>e. quantity (entry_order e)) (mset h))"
  by (simp add: total_quantity_def flip: sum_mset_sum_list)

section \<open>Well-formed books and the matching loop\<close>

text \<open>
  \<open>best h\<close> is \<^verbatim>\<open>h[0][2]\<close>, the order the engine reads as the best of a side. A book is
  well formed when both sides are heaps and every entry carries the key \<^verbatim>\<open>add_order\<close>
  gives it: the negated price on the bid side, the price on the ask side.
\<close>

definition best :: "entry list \<Rightarrow> Order" where
  "best h = entry_order (h ! 0)"

definition keyed :: "entry list \<Rightarrow> entry list \<Rightarrow> bool" where
  "keyed bs as \<longleftrightarrow> (\<forall>e\<in>set bs. fst e = - price (entry_order e)) \<and> (\<forall>e\<in>set as. fst e = price (entry_order e))"

definition wf_book :: "OrderBook \<Rightarrow> bool" where
  "wf_book s \<longleftrightarrow> is_heap (bids s) \<and> is_heap (asks s) \<and> keyed (bids s) (asks s)"

definition no_cross :: "OrderBook \<Rightarrow> bool" where
  "no_cross s \<longleftrightarrow> (\<forall>b\<in>set (bids s). \<forall>a\<in>set (asks s). price (entry_order b) < price (entry_order a))"

lemma entry_le_fst: "entry_le a b \<Longrightarrow> fst a \<le> fst b"
  unfolding entry_le_def entry_lt_iff by auto

lemma heap_root_key:
  assumes "is_heap h" "e \<in> set h"
  shows "fst (h ! 0) \<le> fst e"
proof -
  obtain j where "j < length h" "h ! j = e"
    using assms(2) by (auto simp: in_set_conv_nth)
  then show ?thesis
    using heap_root_le [OF assms(1), of j] entry_le_fst by auto
qed

lemma wf_no_cross:
  assumes "wf_book s"
    and "bids s = [] \<or> asks s = [] \<or> price (entry_order (bids s ! 0)) < price (entry_order (asks s ! 0))"
  shows "no_cross s"
  unfolding no_cross_def
proof (intro ballI)
  fix b a
  assume b: "b \<in> set (bids s)" and a: "a \<in> set (asks s)"
  then have ne: "bids s \<noteq> []" "asks s \<noteq> []"
    by auto
  then have r: "bids s ! 0 \<in> set (bids s)" "asks s ! 0 \<in> set (asks s)"
    by simp_all
  have k: "\<And>e. e \<in> set (bids s) \<Longrightarrow> fst e = - price (entry_order e)"
    "\<And>e. e \<in> set (asks s) \<Longrightarrow> fst e = price (entry_order e)"
    using assms(1) by (auto simp: wf_book_def keyed_def)
  have "fst (bids s ! 0) \<le> fst b" "fst (asks s ! 0) \<le> fst a"
    using heap_root_key assms(1) a b by (auto simp: wf_book_def)
  then have "price (entry_order b) \<le> price (entry_order (bids s ! 0))"
    "price (entry_order (asks s ! 0)) \<le> price (entry_order a)"
    using k r a b by simp_all
  then show "price (entry_order b) < price (entry_order a)"
    using assms(2) ne by auto
qed

lemma dec_entry_simps [simp]:
  "fst (dec_entry e q) = fst e"
  "fst (snd (dec_entry e q)) = fst (snd e)"
  "price (entry_order (dec_entry e q)) = price (entry_order e)"
  "order_id (entry_order (dec_entry e q)) = order_id (entry_order e)"
  "side (entry_order (dec_entry e q)) = side (entry_order e)"
  "timestamp (entry_order (dec_entry e q)) = timestamp (entry_order e)"
  "quantity (entry_order (dec_entry e q)) = quantity (entry_order e) - q"
  by (simp_all add: dec_entry_def entry_order_def)

lemma match_step_Some:
  assumes "bids s \<noteq> []" "asks s \<noteq> []"
  shows "\<exists>bs as. fill_root (bids s) (min (quantity (best (bids s))) (quantity (best (asks s)))) = Some bs
    \<and> fill_root (asks s) (min (quantity (best (bids s))) (quantity (best (asks s)))) = Some as
    \<and> match_step now s = Some (s\<lparr>bids := bs, asks := as,
         order_map := sync_index (sync_index (order_map s) (best (bids s))
              (quantity (best (bids s)) - min (quantity (best (bids s))) (quantity (best (asks s)))))
            (best (asks s)) (quantity (best (asks s)) - min (quantity (best (bids s))) (quantity (best (asks s)))),
         trades := trades s @ [Trade now (price (best (asks s)))
            (min (quantity (best (bids s))) (quantity (best (asks s))))
            (if timestamp (best (bids s)) > timestamp (best (asks s)) then BUY else SELL)],
         last_trade_price := price (best (asks s))\<rparr>)"
proof -
  let ?q = "min (quantity (best (bids s))) (quantity (best (asks s)))"
  obtain bs where b: "fill_root (bids s) ?q = Some bs"
    using fill_root_total [OF assms(1)] by blast
  obtain as where a: "fill_root (asks s) ?q = Some as"
    using fill_root_total [OF assms(2)] by blast
  show ?thesis
    using a b unfolding match_step_def best_def Let_def by simp
qed

lemma fill_root_keyed:
  assumes "h \<noteq> []" "fill_root h q = Some h'" "\<forall>e\<in>set h. fst e = c * price (entry_order e)"
  shows "\<forall>e\<in>set h'. fst e = c * price (entry_order e)"
proof
  fix e
  assume "e \<in> set h'"
  then have "e \<in> set h \<or> e = dec_entry (h ! 0) q"
    using fill_root_set [OF assms(1,2)] by blast
  moreover have "h ! 0 \<in> set h"
    using assms(1) by simp
  ultimately show "fst e = c * price (entry_order e)"
    using assms(3) by auto
qed

lemma match_step_wf:
  assumes "wf_book s" "bids s \<noteq> []" "asks s \<noteq> []" "match_step now s = Some s'"
  shows "wf_book s'"
proof -
  obtain bs as where f: "fill_root (bids s) (min (quantity (best (bids s))) (quantity (best (asks s)))) = Some bs"
    "fill_root (asks s) (min (quantity (best (bids s))) (quantity (best (asks s)))) = Some as"
    and s': "bids s' = bs" "asks s' = as"
    using match_step_Some [OF assms(2,3), of now] assms(4) by auto
  have "is_heap bs" "is_heap as"
    using fill_root_heap f assms(1,2,3) by (auto simp: wf_book_def)
  moreover have "\<forall>e\<in>set bs. fst e = (- 1) * price (entry_order e)"
    using fill_root_keyed [OF assms(2) f(1), of "- 1"] assms(1) by (simp add: wf_book_def keyed_def)
  moreover have "\<forall>e\<in>set as. fst e = 1 * price (entry_order e)"
    using fill_root_keyed [OF assms(3) f(2), of 1] assms(1) by (simp add: wf_book_def keyed_def)
  ultimately show ?thesis
    by (simp add: wf_book_def keyed_def s')
qed

lemma match_orders_rule:
  assumes "P s"
    and step: "\<And>now s s'. P s \<Longrightarrow> bids s \<noteq> [] \<Longrightarrow> asks s \<noteq> [] \<Longrightarrow>
        price (best (bids s)) \<ge> price (best (asks s)) \<Longrightarrow> match_step now s = Some s' \<Longrightarrow> P s'"
  shows "\<exists>s'. match_orders clock n s = Some s' \<and> P s' \<and>
           (bids s' = [] \<or> asks s' = [] \<or> price (best (bids s')) < price (best (asks s')))"
  using assms(1)
proof (induction clock n s rule: match_orders.induct)
  case (1 clock n s)
  show ?case
  proof (cases "bids s \<noteq> [] \<and> asks s \<noteq> [] \<and> price (best (bids s)) \<ge> price (best (asks s))")
    case True
    then obtain s1 where m: "match_step (clock n) s = Some s1"
      using match_step_Some [of s "clock n"] by auto
    have "P s1"
      using step [OF "1.prems" _ _ _ m] True by simp
    then have "\<exists>s'. match_orders clock (Suc n) s1 = Some s' \<and> P s' \<and>
           (bids s' = [] \<or> asks s' = [] \<or> price (best (bids s')) < price (best (asks s')))"
      using "1.IH" [OF _ _ m] True by (simp add: best_def)
    then show ?thesis
      using True m by (subst match_orders.simps) (simp add: best_def)
  next
    case False
    then have "match_orders clock n s = Some s"
      by (subst match_orders.simps) (auto simp: best_def)
    then show ?thesis
      using False "1.prems" by auto
  qed
qed

lemma market_buy_step_Some:
  assumes "asks s \<noteq> []"
  shows "\<exists>as. fill_root (asks s) (min (quantity mo) (quantity (best (asks s)))) = Some as
    \<and> market_buy_step now mo s = Some (mo\<lparr>quantity := quantity mo - min (quantity mo) (quantity (best (asks s)))\<rparr>,
         s\<lparr>asks := as,
           order_map := sync_index (order_map s) (best (asks s))
              (quantity (best (asks s)) - min (quantity mo) (quantity (best (asks s)))),
           trades := trades s @ [Trade now (price (best (asks s)))
              (min (quantity mo) (quantity (best (asks s)))) BUY],
           last_trade_price := price (best (asks s))\<rparr>)"
proof -
  obtain as where a: "fill_root (asks s) (min (quantity mo) (quantity (best (asks s)))) = Some as"
    using fill_root_total [OF assms] by blast
  show ?thesis
    using a unfolding market_buy_step_def best_def Let_def by simp
qed

lemma market_sell_step_Some:
  assumes "bids s \<noteq> []"
  shows "\<exists>bs. fill_root (bids s) (min (quantity mo) (quantity (best (bids s)))) = Some bs
    \<and> market_sell_step now mo s = Some (mo\<lparr>quantity := quantity mo - min (quantity mo) (quantity (best (bids s)))\<rparr>,
         s\<lparr>bids := bs,
           order_map := sync_index (order_map s) (best (bids s))
              (quantity (best (bids s)) - min (quantity mo) (quantity (best (bids s)))),
           trades := trades s @ [Trade now (price (best (bids s)))
              (min (quantity mo) (quantity (best (bids s)))) SELL],
           last_trade_price := price (best (bids s))\<rparr>)"
proof -
  obtain bs where b: "fill_root (bids s) (min (quantity mo) (quantity (best (bids s)))) = Some bs"
    using fill_root_total [OF assms] by blast
  show ?thesis
    using b unfolding market_sell_step_def best_def Let_def by simp
qed

lemma market_buy_loop_rule:
  assumes "P mo s"
    and step: "\<And>now mo s mo' s'. P mo s \<Longrightarrow> quantity mo > 0 \<Longrightarrow> asks s \<noteq> [] \<Longrightarrow>
        market_buy_step now mo s = Some (mo', s') \<Longrightarrow> P mo' s'"
  shows "\<exists>mo' s'. market_buy_loop clock n mo s = Some (mo', s') \<and> P mo' s' \<and>
           (quantity mo' \<le> 0 \<or> asks s' = [])"
  using assms(1)
proof (induction clock n mo s rule: market_buy_loop.induct)
  case (1 clock n mo s)
  show ?case
  proof (cases "quantity mo > 0 \<and> asks s \<noteq> []")
    case True
    then obtain mo1 s1 where m: "market_buy_step (clock n) mo s = Some (mo1, s1)"
      using market_buy_step_Some [of s mo "clock n"] by auto
    have "P mo1 s1"
      using step [OF "1.prems" _ _ m] True by simp
    then have "\<exists>mo' s'. market_buy_loop clock (Suc n) mo1 s1 = Some (mo', s') \<and> P mo' s' \<and>
           (quantity mo' \<le> 0 \<or> asks s' = [])"
      using "1.IH" [OF _ m] True by simp
    then show ?thesis
      using True m by (subst market_buy_loop.simps) simp
  next
    case False
    then have "market_buy_loop clock n mo s = Some (mo, s)"
      by (subst market_buy_loop.simps) auto
    then show ?thesis
      using False "1.prems" by auto
  qed
qed

lemma market_sell_loop_rule:
  assumes "P mo s"
    and step: "\<And>now mo s mo' s'. P mo s \<Longrightarrow> quantity mo > 0 \<Longrightarrow> bids s \<noteq> [] \<Longrightarrow>
        market_sell_step now mo s = Some (mo', s') \<Longrightarrow> P mo' s'"
  shows "\<exists>mo' s'. market_sell_loop clock n mo s = Some (mo', s') \<and> P mo' s' \<and>
           (quantity mo' \<le> 0 \<or> bids s' = [])"
  using assms(1)
proof (induction clock n mo s rule: market_sell_loop.induct)
  case (1 clock n mo s)
  show ?case
  proof (cases "quantity mo > 0 \<and> bids s \<noteq> []")
    case True
    then obtain mo1 s1 where m: "market_sell_step (clock n) mo s = Some (mo1, s1)"
      using market_sell_step_Some [of s mo "clock n"] by auto
    have "P mo1 s1"
      using step [OF "1.prems" _ _ m] True by simp
    then have "\<exists>mo' s'. market_sell_loop clock (Suc n) mo1 s1 = Some (mo', s') \<and> P mo' s' \<and>
           (quantity mo' \<le> 0 \<or> bids s' = [])"
      using "1.IH" [OF _ m] True by simp
    then show ?thesis
      using True m by (subst market_sell_loop.simps) simp
  next
    case False
    then have "market_sell_loop clock n mo s = Some (mo, s)"
      by (subst market_sell_loop.simps) auto
    then show ?thesis
      using False "1.prems" by auto
  qed
qed

text \<open>
  \<open>limit_insert\<close> is the book between the insertion of a limit order by \<^verbatim>\<open>add_order\<close>
  and the call of \<^verbatim>\<open>match_orders\<close>. A predicate that the insertion establishes and every
  pass of the loops keeps holds after \<^verbatim>\<open>add_order\<close>, which always returns.
\<close>

definition limit_insert :: "Order \<Rightarrow> OrderBook \<Rightarrow> OrderBook" where
  "limit_insert ord s =
     (let s1 = (if side ord = BUY
                then s\<lparr>bids := heappush (bids s) (- price ord, timestamp ord, ord)\<rparr>
                else s\<lparr>asks := heappush (asks s) (price ord, timestamp ord, ord)\<rparr>)
      in s1\<lparr>order_map := (order_map s1)(order_id ord \<mapsto> ord)\<rparr>)"

lemma add_order_limit:
  "order_type ord \<noteq> MARKET \<Longrightarrow>
     add_order clock ord s = map_option (\<lambda>s3. (True, s3)) (match_orders clock 0 (limit_insert ord s))"
  by (simp add: add_order_def limit_insert_def Let_def)

lemma add_order_market:
  "order_type ord = MARKET \<Longrightarrow>
     add_order clock ord s =
       (if side ord = BUY then
          (if asks s = [] then Some (False, s)
           else map_option (\<lambda>(mo, s'). (True, s')) (market_buy_loop clock 0 ord s))
        else
          (if bids s = [] then Some (False, s)
           else map_option (\<lambda>(mo, s'). (True, s')) (market_sell_loop clock 0 ord s)))"
  by (auto simp: add_order_def handle_market_order_def split: option.splits)

lemma add_order_rule:
  assumes "P s"
    and ins: "order_type ord \<noteq> MARKET \<Longrightarrow> P (limit_insert ord s)"
    and ms: "\<And>now s s'. P s \<Longrightarrow> bids s \<noteq> [] \<Longrightarrow> asks s \<noteq> [] \<Longrightarrow>
        price (best (bids s)) \<ge> price (best (asks s)) \<Longrightarrow> order_type ord \<noteq> MARKET \<Longrightarrow>
        match_step now s = Some s' \<Longrightarrow> P s'"
    and bs: "\<And>now mo s mo' s'. P s \<Longrightarrow> quantity mo > 0 \<Longrightarrow> asks s \<noteq> [] \<Longrightarrow>
        order_type ord = MARKET \<Longrightarrow> side ord = BUY \<Longrightarrow>
        market_buy_step now mo s = Some (mo', s') \<Longrightarrow> P s'"
    and ss: "\<And>now mo s mo' s'. P s \<Longrightarrow> quantity mo > 0 \<Longrightarrow> bids s \<noteq> [] \<Longrightarrow>
        order_type ord = MARKET \<Longrightarrow> side ord = SELL \<Longrightarrow>
        market_sell_step now mo s = Some (mo', s') \<Longrightarrow> P s'"
  shows "\<exists>ok s'. add_order clock ord s = Some (ok, s') \<and> P s' \<and>
     (order_type ord \<noteq> MARKET \<longrightarrow> ok \<and>
        (bids s' = [] \<or> asks s' = [] \<or> price (best (bids s')) < price (best (asks s'))))"
proof (cases "order_type ord = MARKET")
  case False
  have "\<exists>s'. match_orders clock 0 (limit_insert ord s) = Some s' \<and> P s' \<and>
           (bids s' = [] \<or> asks s' = [] \<or> price (best (bids s')) < price (best (asks s')))"
    by (rule match_orders_rule [where P = P]) (use ins ms False in auto)
  then show ?thesis
    using False by (auto simp: add_order_limit)
next
  case True
  show ?thesis
  proof (cases "side ord = BUY")
    case buy: True
    have "\<exists>mo' s'. market_buy_loop clock 0 ord s = Some (mo', s') \<and> P s' \<and>
           (quantity mo' \<le> 0 \<or> asks s' = [])"
      by (rule market_buy_loop_rule [where P = "\<lambda>mo s. P s"]) (use assms(1) bs True buy in auto)
    then show ?thesis
      using True buy assms(1) by (auto simp: add_order_market)
  next
    case sell: False
    then have sell': "side ord = SELL"
      by (cases "side ord") auto
    have "\<exists>mo' s'. market_sell_loop clock 0 ord s = Some (mo', s') \<and> P s' \<and>
           (quantity mo' \<le> 0 \<or> bids s' = [])"
      by (rule market_sell_loop_rule [where P = "\<lambda>mo s. P s"]) (use assms(1) ss True sell' in auto)
    then show ?thesis
      using True sell assms(1) by (auto simp: add_order_market)
  qed
qed

section \<open>Sequences of operations\<close>

text \<open>
  The states the engine reaches are those obtained from the empty book \<open>init\<close> by a sequence
  of calls of \<^verbatim>\<open>add_order_api\<close> (any side, price, quantity, order type, participant and
  clock readings) and \<^verbatim>\<open>cancel_order\<close> (any id). \<open>run\<close> is \<open>None\<close> if a call raises.
\<close>

datatype op = Submit "nat \<Rightarrow> real" side real int order_type string | Cancel int

fun apply_op :: "op \<Rightarrow> OrderBook \<Rightarrow> OrderBook option" where
  "apply_op (Submit clock sd pr qty ty name) s = map_option snd (add_order_api clock sd pr qty ty name s)"
| "apply_op (Cancel oid) s = Some (snd (cancel_order oid s))"

fun run :: "op list \<Rightarrow> OrderBook \<Rightarrow> OrderBook option" where
  "run [] s = Some s"
| "run (x # xs) s = (case apply_op x s of None \<Rightarrow> None | Some s' \<Rightarrow> run xs s')"

text \<open>A clock that reads the same time at every call.\<close>

definition const_clock :: "real \<Rightarrow> nat \<Rightarrow> real" where
  "const_clock t n = t"

lemma run_rule:
  assumes "P s"
    and "\<And>x s. P s \<Longrightarrow> x \<in> set xs \<Longrightarrow> \<exists>s'. apply_op x s = Some s' \<and> P s'"
  shows "\<exists>s'. run xs s = Some s' \<and> P s'"
  using assms
proof (induction xs arbitrary: s)
  case Nil
  then show ?case by simp
next
  case (Cons x xs)
  obtain s1 where s1: "apply_op x s = Some s1" "P s1"
    using Cons.prems by (meson list.set_intros(1))
  have "\<exists>s'. run xs s1 = Some s' \<and> P s'"
    using Cons.IH [OF s1(2)] Cons.prems(2) by simp
  then show ?case
    using s1 by simp
qed

lemma set_heappush [simp]: "set (heappush h x) = insert x (set h)"
  using mset_heappush [of h x] by (metis set_mset_add_mset_insert set_mset_mset)

lemma set_heapify [simp]: "set (heapify h) = set h"
  using mset_heapify [of h] by (metis set_mset_mset)

lemma fill_root_prices:
  assumes "h \<noteq> []" "fill_root h q = Some h'" "e \<in> set h'"
  shows "\<exists>e0\<in>set h. price (entry_order e) = price (entry_order e0)"
proof -
  have "h ! 0 \<in> set h"
    using assms(1) by simp
  then show ?thesis
    using fill_root_set [OF assms] by auto
qed

lemma no_cross_subset:
  assumes "no_cross s"
    and "\<forall>e\<in>set (bids s'). \<exists>e0\<in>set (bids s). price (entry_order e) = price (entry_order e0)"
    and "\<forall>e\<in>set (asks s'). \<exists>e0\<in>set (asks s). price (entry_order e) = price (entry_order e0)"
  shows "no_cross s'"
  unfolding no_cross_def
proof (intro ballI)
  fix b a
  assume "b \<in> set (bids s')" "a \<in> set (asks s')"
  then obtain b0 a0 where "b0 \<in> set (bids s)" "a0 \<in> set (asks s)"
    "price (entry_order b) = price (entry_order b0)" "price (entry_order a) = price (entry_order a0)"
    using assms(2,3) by metis
  then show "price (entry_order b) < price (entry_order a)"
    using assms(1) by (simp add: no_cross_def)
qed

lemma match_step_no_cross:
  assumes "no_cross s" "bids s \<noteq> []" "asks s \<noteq> []" "match_step now s = Some s'"
  shows "no_cross s'"
proof -
  obtain bs as where f: "fill_root (bids s) (min (quantity (best (bids s))) (quantity (best (asks s)))) = Some bs"
    "fill_root (asks s) (min (quantity (best (bids s))) (quantity (best (asks s)))) = Some as"
    and s': "bids s' = bs" "asks s' = as"
    using match_step_Some [OF assms(2,3), of now] assms(4) by auto
  show ?thesis
    using assms(1)
  proof (rule no_cross_subset)
    show "\<forall>e\<in>set (bids s'). \<exists>e0\<in>set (bids s). price (entry_order e) = price (entry_order e0)"
      using fill_root_prices [OF assms(2) f(1)] s' by blast
    show "\<forall>e\<in>set (asks s'). \<exists>e0\<in>set (asks s). price (entry_order e) = price (entry_order e0)"
      using fill_root_prices [OF assms(3) f(2)] s' by blast
  qed
qed

lemma market_buy_step_wf:
  assumes "wf_book s" "asks s \<noteq> []" "market_buy_step now mo s = Some (mo', s')"
  shows "wf_book s'"
proof -
  obtain as where f: "fill_root (asks s) (min (quantity mo) (quantity (best (asks s)))) = Some as"
    and s': "bids s' = bids s" "asks s' = as"
    using market_buy_step_Some [OF assms(2), of mo now] assms(3) by auto
  have "is_heap as"
    using fill_root_heap f assms(1,2) by (auto simp: wf_book_def)
  moreover have "\<forall>e\<in>set as. fst e = 1 * price (entry_order e)"
    using fill_root_keyed [OF assms(2) f, of 1] assms(1) by (simp add: wf_book_def keyed_def)
  ultimately show ?thesis
    using assms(1) by (simp add: wf_book_def keyed_def s')
qed

lemma market_sell_step_wf:
  assumes "wf_book s" "bids s \<noteq> []" "market_sell_step now mo s = Some (mo', s')"
  shows "wf_book s'"
proof -
  obtain bs where f: "fill_root (bids s) (min (quantity mo) (quantity (best (bids s)))) = Some bs"
    and s': "bids s' = bs" "asks s' = asks s"
    using market_sell_step_Some [OF assms(2), of mo now] assms(3) by auto
  have "is_heap bs"
    using fill_root_heap f assms(1,2) by (auto simp: wf_book_def)
  moreover have "\<forall>e\<in>set bs. fst e = (- 1) * price (entry_order e)"
    using fill_root_keyed [OF assms(2) f, of "- 1"] assms(1) by (simp add: wf_book_def keyed_def)
  ultimately show ?thesis
    using assms(1) by (simp add: wf_book_def keyed_def s')
qed

lemma market_buy_step_no_cross:
  assumes "no_cross s" "asks s \<noteq> []" "market_buy_step now mo s = Some (mo', s')"
  shows "no_cross s'"
proof -
  obtain as where f: "fill_root (asks s) (min (quantity mo) (quantity (best (asks s)))) = Some as"
    and s': "bids s' = bids s" "asks s' = as"
    using market_buy_step_Some [OF assms(2), of mo now] assms(3) by auto
  show ?thesis
    using assms(1)
  proof (rule no_cross_subset)
    show "\<forall>e\<in>set (bids s'). \<exists>e0\<in>set (bids s). price (entry_order e) = price (entry_order e0)"
      using s' by auto
    show "\<forall>e\<in>set (asks s'). \<exists>e0\<in>set (asks s). price (entry_order e) = price (entry_order e0)"
      using fill_root_prices [OF assms(2) f] s' by blast
  qed
qed

lemma market_sell_step_no_cross:
  assumes "no_cross s" "bids s \<noteq> []" "market_sell_step now mo s = Some (mo', s')"
  shows "no_cross s'"
proof -
  obtain bs where f: "fill_root (bids s) (min (quantity mo) (quantity (best (bids s)))) = Some bs"
    and s': "bids s' = bs" "asks s' = asks s"
    using market_sell_step_Some [OF assms(2), of mo now] assms(3) by auto
  show ?thesis
    using assms(1)
  proof (rule no_cross_subset)
    show "\<forall>e\<in>set (bids s'). \<exists>e0\<in>set (bids s). price (entry_order e) = price (entry_order e0)"
      using fill_root_prices [OF assms(2) f] s' by blast
    show "\<forall>e\<in>set (asks s'). \<exists>e0\<in>set (asks s). price (entry_order e) = price (entry_order e0)"
      using s' by auto
  qed
qed

lemma limit_insert_wf: "wf_book s \<Longrightarrow> wf_book (limit_insert ord s)"
  by (auto simp: wf_book_def keyed_def limit_insert_def Let_def heappush_heap entry_order_def)

lemma cancel_order_wf: "wf_book s \<Longrightarrow> wf_book (snd (cancel_order oid s))"
  by (auto simp: wf_book_def keyed_def cancel_order_def Let_def heapify_heap split: option.splits)

lemma cancel_order_no_cross: "no_cross s \<Longrightarrow> no_cross (snd (cancel_order oid s))"
  by (auto simp: no_cross_def cancel_order_def Let_def split: option.splits)

definition book_ok :: "OrderBook \<Rightarrow> bool" where
  "book_ok s \<longleftrightarrow> wf_book s \<and> no_cross s"

lemma wf_book_next_id [simp]: "wf_book (s\<lparr>next_order_id := i\<rparr>) = wf_book s"
  by (simp add: wf_book_def)

lemma no_cross_next_id [simp]: "no_cross (s\<lparr>next_order_id := i\<rparr>) = no_cross s"
  by (simp add: no_cross_def)

lemma add_order_book_ok:
  assumes "book_ok s"
  shows "\<exists>ok s'. add_order clock ord s = Some (ok, s') \<and> book_ok s'"
proof -
  let ?P = "\<lambda>s. wf_book s \<and> (order_type ord = MARKET \<longrightarrow> no_cross s)"
  have "\<exists>ok s'. add_order clock ord s = Some (ok, s') \<and> ?P s' \<and>
     (order_type ord \<noteq> MARKET \<longrightarrow> ok \<and>
        (bids s' = [] \<or> asks s' = [] \<or> price (best (bids s')) < price (best (asks s'))))"
  proof (rule add_order_rule [where P = ?P])
    show "?P s"
      using assms by (simp add: book_ok_def)
    show "?P (limit_insert ord s)" if "order_type ord \<noteq> MARKET"
      using that assms limit_insert_wf by (simp add: book_ok_def)
    show "?P s'" if "?P s" "bids s \<noteq> []" "asks s \<noteq> []" "match_step now s = Some s'" for now s s'
      using that match_step_wf match_step_no_cross by blast
    show "?P s'" if "?P s" "asks s \<noteq> []" "market_buy_step now mo s = Some (mo', s')" for now mo s mo' s'
      using that market_buy_step_wf market_buy_step_no_cross by blast
    show "?P s'" if "?P s" "bids s \<noteq> []" "market_sell_step now mo s = Some (mo', s')" for now mo s mo' s'
      using that market_sell_step_wf market_sell_step_no_cross by blast
  qed
  then obtain ok s' where r: "add_order clock ord s = Some (ok, s')" "wf_book s'"
    "order_type ord = MARKET \<longrightarrow> no_cross s'"
    "order_type ord \<noteq> MARKET \<longrightarrow> (bids s' = [] \<or> asks s' = [] \<or> price (best (bids s')) < price (best (asks s')))"
    by blast
  have "no_cross s'"
    using r(2,3,4) wf_no_cross [of s'] by (auto simp: best_def)
  then show ?thesis
    using r(1,2) by (simp add: book_ok_def)
qed

lemma apply_op_book_ok:
  assumes "book_ok s"
  shows "\<exists>s'. apply_op x s = Some s' \<and> book_ok s'"
proof (cases x)
  case (Submit clock sd pr qty ty name)
  let ?ord = "\<lparr>order_id = next_order_id s, side = sd, price = pr, quantity = qty, order_type = ty,
                 timestamp = clock 0, participant_name = name\<rparr>"
  have "book_ok (s\<lparr>next_order_id := next_order_id s + 1\<rparr>)"
    using assms by (simp add: book_ok_def)
  from add_order_book_ok [OF this, of "\<lambda>n. clock (Suc n)" ?ord]
  show ?thesis
    unfolding Submit by (auto simp: add_order_api_def Let_def)
next
  case (Cancel oid)
  then show ?thesis
    using assms cancel_order_wf cancel_order_no_cross by (simp add: book_ok_def)
qed

lemma book_ok_init: "book_ok init"
  by (simp add: book_ok_def wf_book_def keyed_def no_cross_def init_def)

text \<open>
  Claim C1. From the empty book, every sequence of submissions (limit or market) and
  cancellations runs without raising and ends in a book in which every resting bid price is
  strictly below every resting ask price.
\<close>

theorem no_crossed_book:
  "\<exists>s. run ops init = Some s \<and> no_cross s"
proof -
  have "\<exists>s. run ops init = Some s \<and> book_ok s"
    by (rule run_rule) (use book_ok_init apply_op_book_ok in auto)
  then show ?thesis
    by (auto simp: book_ok_def)
qed

text \<open>The equations that evaluate the engine on a concrete book.\<close>

lemmas book_eval = add_order_api_def add_order_def handle_market_order_def match_orders.simps
  market_buy_loop.simps market_sell_loop.simps match_step_def market_buy_step_def market_sell_step_def
  fill_root_def set_root_quantity_def sync_index_def heappop_def heappush_def siftdown_def
  siftdown_loop.simps siftup_def siftup_loop.simps heapify_def cancel_order_def
  entry_order_def entry_lt_def order_lt_def init_def Let_def

theorem no_crossed_book_witness:
  "\<exists>s. run [Submit (const_clock 0) BUY 100 10 LIMIT ''mm'', Submit (const_clock 1) SELL 101 5 LIMIT ''rt''] init = Some s
     \<and> no_cross s \<and> bids s \<noteq> [] \<and> asks s \<noteq> []"
proof -
  let ?ops = "[Submit (const_clock 0) BUY 100 10 LIMIT ''mm'', Submit (const_clock 1) SELL 101 5 LIMIT ''rt'']"
  obtain s where s: "run ?ops init = Some s" "no_cross s"
    using no_crossed_book [of ?ops] by blast
  have "\<forall>s. run ?ops init = Some s \<longrightarrow> bids s \<noteq> [] \<and> asks s \<noteq> []"
    by (simp add: book_eval)
  then show ?thesis
    using s by blast
qed

section \<open>Limit matching\<close>

lemma dom_sync_index [simp]: "dom (sync_index m ord q) = dom m"
  by (auto simp: sync_index_def split: option.splits)

lemma best_bid_highest:
  assumes "wf_book s" "e \<in> set (bids s)"
  shows "price (entry_order e) \<le> price (best (bids s))"
proof -
  have "bids s ! 0 \<in> set (bids s)"
    using assms(2) by (cases "bids s") auto
  then have "fst (bids s ! 0) = - price (best (bids s))" "fst e = - price (entry_order e)"
    using assms by (auto simp: wf_book_def keyed_def best_def)
  moreover have "fst (bids s ! 0) \<le> fst e"
    using heap_root_key assms by (simp add: wf_book_def)
  ultimately show ?thesis by simp
qed

lemma best_ask_lowest:
  assumes "wf_book s" "e \<in> set (asks s)"
  shows "price (best (asks s)) \<le> price (entry_order e)"
proof -
  have "asks s ! 0 \<in> set (asks s)"
    using assms(2) by (cases "asks s") auto
  then have "fst (asks s ! 0) = price (best (asks s))" "fst e = price (entry_order e)"
    using assms by (auto simp: wf_book_def keyed_def best_def)
  moreover have "fst (asks s ! 0) \<le> fst e"
    using heap_root_key assms by (simp add: wf_book_def)
  ultimately show ?thesis by simp
qed

text \<open>
  \<open>filled h q h'\<close>: side \<open>h'\<close> is side \<open>h\<close> with \<open>q\<close> taken off its best order, the
  order being removed when nothing of it is left.
\<close>

definition filled :: "entry list \<Rightarrow> int \<Rightarrow> entry list \<Rightarrow> bool" where
  "filled h q h' \<longleftrightarrow>
     mset h' = (if quantity (best h) = q then mset h - {#h ! 0#}
                else add_mset (dec_entry (h ! 0) q) (mset h - {#h ! 0#}))"

lemma match_step_effect:
  assumes "bids s \<noteq> []" "asks s \<noteq> []"
  shows "\<exists>s'. match_step now s = Some s' \<and>
     trades s' = trades s @ [Trade now (price (best (asks s)))
        (min (quantity (best (bids s))) (quantity (best (asks s))))
        (if timestamp (best (bids s)) > timestamp (best (asks s)) then BUY else SELL)] \<and>
     last_trade_price s' = price (best (asks s)) \<and>
     filled (bids s) (min (quantity (best (bids s))) (quantity (best (asks s)))) (bids s') \<and>
     filled (asks s) (min (quantity (best (bids s))) (quantity (best (asks s)))) (asks s') \<and>
     next_order_id s' = next_order_id s \<and> dom (order_map s') = dom (order_map s)"
proof -
  let ?q = "min (quantity (best (bids s))) (quantity (best (asks s)))"
  obtain bs as s' where f: "fill_root (bids s) ?q = Some bs" "fill_root (asks s) ?q = Some as"
    and m: "match_step now s = Some s'"
    and s': "bids s' = bs" "asks s' = as" "trades s' = trades s @ [Trade now (price (best (asks s))) ?q
        (if timestamp (best (bids s)) > timestamp (best (asks s)) then BUY else SELL)]"
     "last_trade_price s' = price (best (asks s))" "next_order_id s' = next_order_id s"
     "dom (order_map s') = dom (order_map s)"
    using match_step_Some [OF assms, of now] by auto
  have "filled (bids s) ?q bs" "filled (asks s) ?q as"
    using fill_root_mset [OF assms(1) f(1)] fill_root_mset [OF assms(2) f(2)]
    by (simp_all add: filled_def best_def)
  then show ?thesis
    using m s' by simp
qed






definition crossed_example :: OrderBook where
  "crossed_example =
     \<lparr>bids = [(- 100, 0, \<lparr>order_id = 1, side = BUY, price = 100, quantity = 10,
                 order_type = LIMIT, timestamp = 0, participant_name = ''mm''\<rparr>)],
      asks = [(99, 1, \<lparr>order_id = 2, side = SELL, price = 99, quantity = 5,
                 order_type = LIMIT, timestamp = 1, participant_name = ''rt''\<rparr>)],
      order_map = Map.empty, trades = [], next_order_id = 3, last_trade_price = 100\<rparr>"


section \<open>Market orders\<close>

definition resting_ids :: "entry list \<Rightarrow> int set" where
  "resting_ids h = (\<lambda>e. order_id (entry_order e)) ` set h"


lemma market_buy_step_effect:
  assumes "asks s \<noteq> []"
  shows "\<exists>mo' s'. market_buy_step now mo s = Some (mo', s') \<and>
     mo' = mo\<lparr>quantity := quantity mo - min (quantity mo) (quantity (best (asks s)))\<rparr> \<and>
     trades s' = trades s @ [Trade now (price (best (asks s)))
        (min (quantity mo) (quantity (best (asks s)))) BUY] \<and>
     last_trade_price s' = price (best (asks s)) \<and>
     filled (asks s) (min (quantity mo) (quantity (best (asks s)))) (asks s') \<and>
     bids s' = bids s \<and>
     next_order_id s' = next_order_id s \<and> dom (order_map s') = dom (order_map s)"
proof -
  let ?q = "min (quantity mo) (quantity (best (asks s)))"
  obtain as mo' s' where f: "fill_root (asks s) ?q = Some as"
    and m: "market_buy_step now mo s = Some (mo', s')"
    and s': "mo' = mo\<lparr>quantity := quantity mo - ?q\<rparr>" "asks s' = as" "bids s' = bids s"
     "trades s' = trades s @ [Trade now (price (best (asks s))) ?q BUY]"
     "last_trade_price s' = price (best (asks s))" "next_order_id s' = next_order_id s"
     "dom (order_map s') = dom (order_map s)"
    using market_buy_step_Some [OF assms, of mo now] by auto
  have "filled (asks s) ?q as"
    using fill_root_mset [OF assms f] by (simp add: filled_def best_def)
  then show ?thesis
    using m s' by simp
qed

lemma market_sell_step_effect:
  assumes "bids s \<noteq> []"
  shows "\<exists>mo' s'. market_sell_step now mo s = Some (mo', s') \<and>
     mo' = mo\<lparr>quantity := quantity mo - min (quantity mo) (quantity (best (bids s)))\<rparr> \<and>
     trades s' = trades s @ [Trade now (price (best (bids s)))
        (min (quantity mo) (quantity (best (bids s)))) SELL] \<and>
     last_trade_price s' = price (best (bids s)) \<and>
     filled (bids s) (min (quantity mo) (quantity (best (bids s)))) (bids s') \<and>
     asks s' = asks s \<and>
     next_order_id s' = next_order_id s \<and> dom (order_map s') = dom (order_map s)"
proof -
  let ?q = "min (quantity mo) (quantity (best (bids s)))"
  obtain bs mo' s' where f: "fill_root (bids s) ?q = Some bs"
    and m: "market_sell_step now mo s = Some (mo', s')"
    and s': "mo' = mo\<lparr>quantity := quantity mo - ?q\<rparr>" "bids s' = bs" "asks s' = asks s"
     "trades s' = trades s @ [Trade now (price (best (bids s))) ?q SELL]"
     "last_trade_price s' = price (best (bids s))" "next_order_id s' = next_order_id s"
     "dom (order_map s') = dom (order_map s)"
    using market_sell_step_Some [OF assms, of mo now] by auto
  have "filled (bids s) ?q bs"
    using fill_root_mset [OF assms f] by (simp add: filled_def best_def)
  then show ?thesis
    using m s' by simp
qed

lemma filled_total_quantity:
  assumes "h \<noteq> []" "filled h q h'"
  shows "total_quantity h' = total_quantity h - q"
proof -
  have "h ! 0 \<in># mset h"
    using assms(1) by simp
  then have m: "mset h = add_mset (h ! 0) (mset h - {#h ! 0#})"
    by simp
  have "total_quantity h = quantity (entry_order (h ! 0))
      + sum_mset (image_mset (\<lambda>e. quantity (entry_order e)) (mset h - {#h ! 0#}))"
    unfolding total_quantity_mset by (subst m) simp
  then show ?thesis
    using assms(2) unfolding total_quantity_mset [of h'] filled_def best_def by simp
qed













section \<open>Rejected market orders\<close>

text \<open>
  Claim C4, as stated, fails: \<^verbatim>\<open>add_order_api\<close> takes the next id and advances
  \<^verbatim>\<open>next_order_id\<close> before it calls \<^verbatim>\<open>add_order\<close>, so a rejected market order on the
  empty book leaves a state that differs from the one before.
\<close>

theorem rejected_market_order_counterexample:
  "add_order_api (const_clock 0) BUY 0 5 MARKET ''rt'' init
     = Some ((False, None), init\<lparr>next_order_id := 2\<rparr>) \<and>
   init\<lparr>next_order_id := 2\<rparr> \<noteq> init"
proof -
  have "next_order_id (init\<lparr>next_order_id := 2\<rparr>) \<noteq> next_order_id init"
    by (simp add: init_def)
  then have "init\<lparr>next_order_id := 2\<rparr> \<noteq> init"
    by metis
  then show ?thesis
    by (simp add: add_order_api_def add_order_def handle_market_order_def init_def Let_def)
qed

text \<open>
  Claim C4, amended. A market order submitted while the opposite side is empty is rejected:
  the result is \<open>(False, None)\<close>, and the book is the one before except that the id counter
  has advanced by one. Bids, asks, index, trade log and last trade price are unchanged.
\<close>

theorem rejected_market_order:
  "(sd = BUY \<and> asks s = [] \<or> sd = SELL \<and> bids s = []) \<Longrightarrow>
     add_order_api clock sd pr qty MARKET name s
       = Some ((False, None), s\<lparr>next_order_id := next_order_id s + 1\<rparr>)"
  by (auto simp: add_order_api_def add_order_def handle_market_order_def Let_def)

theorem rejected_market_order_witness:
  "(BUY = BUY \<and> asks init = [] \<or> BUY = SELL \<and> bids init = []) \<and>
   add_order_api (const_clock 0) BUY 0 5 MARKET ''rt'' init
     = Some ((False, None), init\<lparr>next_order_id := 2\<rparr>) \<and>
   bids (init\<lparr>next_order_id := 2\<rparr>) = bids init \<and> trades (init\<lparr>next_order_id := 2\<rparr>) = []"
  using rejected_market_order [of BUY init "const_clock 0" 0 5 "''rt''"]
  by (simp add: init_def)

section \<open>Invariants of the reachable books\<close>

lemma submit_rule:
  assumes "P s"
    and nid: "\<And>s i. P s \<Longrightarrow> P (s\<lparr>next_order_id := i\<rparr>)"
    and ins: "\<And>s ord. P s \<Longrightarrow> order_type ord \<noteq> MARKET \<Longrightarrow> quantity ord = qty \<Longrightarrow>
        P (limit_insert ord s)"
    and ms: "\<And>now s s'. P s \<Longrightarrow> bids s \<noteq> [] \<Longrightarrow> asks s \<noteq> [] \<Longrightarrow>
        match_step now s = Some s' \<Longrightarrow> P s'"
    and bs: "\<And>now mo s mo' s'. P s \<Longrightarrow> asks s \<noteq> [] \<Longrightarrow>
        market_buy_step now mo s = Some (mo', s') \<Longrightarrow> P s'"
    and ss: "\<And>now mo s mo' s'. P s \<Longrightarrow> bids s \<noteq> [] \<Longrightarrow>
        market_sell_step now mo s = Some (mo', s') \<Longrightarrow> P s'"
  shows "\<exists>s'. apply_op (Submit clock sd pr qty ty name) s = Some s' \<and> P s'"
proof -
  let ?ord = "\<lparr>order_id = next_order_id s, side = sd, price = pr, quantity = qty, order_type = ty,
                 timestamp = clock 0, participant_name = name\<rparr>"
  let ?s0 = "s\<lparr>next_order_id := next_order_id s + 1\<rparr>"
  have "\<exists>ok s'. add_order (\<lambda>n. clock (Suc n)) ?ord ?s0 = Some (ok, s') \<and> P s' \<and>
     (order_type ?ord \<noteq> MARKET \<longrightarrow> ok \<and>
        (bids s' = [] \<or> asks s' = [] \<or> price (best (bids s')) < price (best (asks s'))))"
  proof (rule add_order_rule [where P = P])
    show "P ?s0"
      using assms(1) nid by simp
    show "P (limit_insert ?ord ?s0)" if "order_type ?ord \<noteq> MARKET"
      using ins [OF \<open>P ?s0\<close> that] by simp
  qed (use ms bs ss in blast)+
  then show ?thesis
    by (auto simp: add_order_api_def Let_def)
qed

definition last_trade_ok :: "OrderBook \<Rightarrow> bool" where
  "last_trade_ok s \<longleftrightarrow>
     last_trade_price s = (if trades s = [] then 100 else tr_price (last (trades s)))"

definition positive_book :: "OrderBook \<Rightarrow> bool" where
  "positive_book s \<longleftrightarrow> (\<forall>e\<in>set (bids s) \<union> set (asks s). 0 < quantity (entry_order e))"

lemma filled_positive:
  assumes "h \<noteq> []" "filled h q h'" "q \<le> quantity (best h)"
    and "\<forall>e\<in>set h. 0 < quantity (entry_order e)"
  shows "\<forall>e\<in>set h'. 0 < quantity (entry_order e)"
proof
  fix e
  assume "e \<in> set h'"
  then have "e \<in># mset h'" by simp
  then have "e \<in> set h \<or> (e = dec_entry (h ! 0) q \<and> quantity (best h) \<noteq> q)"
    using assms(2) unfolding filled_def by (auto split: if_splits dest: in_diffD)
  then show "0 < quantity (entry_order e)"
    using assms(3,4) by (auto simp: best_def)
qed

lemma cancel_order_sides:
  "set (bids (snd (cancel_order oid s))) \<subseteq> set (bids s) \<and>
   set (asks (snd (cancel_order oid s))) \<subseteq> set (asks s) \<and>
   trades (snd (cancel_order oid s)) = trades s \<and>
   last_trade_price (snd (cancel_order oid s)) = last_trade_price s \<and>
   next_order_id (snd (cancel_order oid s)) = next_order_id s"
  by (auto simp: cancel_order_def Let_def split: option.splits)

lemma limit_insert_sides:
  "set (bids (limit_insert ord s)) \<union> set (asks (limit_insert ord s))
     = insert (if side ord = BUY then (- price ord, timestamp ord, ord) else (price ord, timestamp ord, ord))
         (set (bids s) \<union> set (asks s)) \<and>
   trades (limit_insert ord s) = trades s \<and>
   last_trade_price (limit_insert ord s) = last_trade_price s"
  by (auto simp: limit_insert_def Let_def)

lemma apply_op_last_trade_ok:
  assumes "last_trade_ok s"
  shows "\<exists>s'. apply_op x s = Some s' \<and> last_trade_ok s'"
proof (cases x)
  case (Submit clock sd pr qty ty name)
  show ?thesis
    unfolding Submit
  proof (rule submit_rule [where P = last_trade_ok])
    show "last_trade_ok s'" if "last_trade_ok s" "bids s \<noteq> []" "asks s \<noteq> []" "match_step now s = Some s'"
      for now s s'
      using match_step_effect [OF that(2,3), of now] that(4) by (auto simp: last_trade_ok_def)
    show "last_trade_ok s'" if "asks s \<noteq> []" "market_buy_step now mo s = Some (mo', s')"
      for now mo s mo' s'
      using market_buy_step_effect [OF that(1), of now mo] that(2) by (auto simp: last_trade_ok_def)
    show "last_trade_ok s'" if "bids s \<noteq> []" "market_sell_step now mo s = Some (mo', s')"
      for now mo s mo' s'
      using market_sell_step_effect [OF that(1), of now mo] that(2) by (auto simp: last_trade_ok_def)
  qed (use assms limit_insert_sides in \<open>auto simp: last_trade_ok_def\<close>)
next
  case (Cancel oid)
  then show ?thesis
    using assms cancel_order_sides [of oid s] by (simp add: last_trade_ok_def)
qed

lemma apply_op_positive_book:
  assumes "positive_book s" "case x of Submit clock sd pr qty ty name \<Rightarrow> 0 < qty | Cancel oid \<Rightarrow> True"
  shows "\<exists>s'. apply_op x s = Some s' \<and> positive_book s'"
proof (cases x)
  case (Submit clock sd pr qty ty name)
  then have q: "0 < qty"
    using assms(2) by simp
  show ?thesis
    unfolding Submit
  proof (rule submit_rule [where P = positive_book])
    show "positive_book (limit_insert ord s)" if "positive_book s" "quantity ord = qty" for s ord
      using that q limit_insert_sides [of ord s] by (auto simp: positive_book_def entry_order_def)
    show "positive_book s'" if "positive_book s" "bids s \<noteq> []" "asks s \<noteq> []" "match_step now s = Some s'"
      for now s s'
    proof -
      let ?q = "min (quantity (best (bids s))) (quantity (best (asks s)))"
      have f: "filled (bids s) ?q (bids s')" "filled (asks s) ?q (asks s')"
        using match_step_effect [OF that(2,3), of now] that(4) by auto
      have "\<forall>e\<in>set (bids s'). 0 < quantity (entry_order e)"
        by (rule filled_positive [OF that(2) f(1)]) (use that(1) in \<open>simp_all add: positive_book_def\<close>)
      moreover have "\<forall>e\<in>set (asks s'). 0 < quantity (entry_order e)"
        by (rule filled_positive [OF that(3) f(2)]) (use that(1) in \<open>simp_all add: positive_book_def\<close>)
      ultimately show ?thesis
        unfolding positive_book_def by blast
    qed
    show "positive_book s'" if "positive_book s" "asks s \<noteq> []" "market_buy_step now mo s = Some (mo', s')"
      for now mo s mo' s'
    proof -
      let ?q = "min (quantity mo) (quantity (best (asks s)))"
      have f: "filled (asks s) ?q (asks s')" "bids s' = bids s"
        using market_buy_step_effect [OF that(2), of now mo] that(3) by auto
      have "\<forall>e\<in>set (asks s'). 0 < quantity (entry_order e)"
        by (rule filled_positive [OF that(2) f(1)]) (use that(1) in \<open>simp_all add: positive_book_def\<close>)
      then show ?thesis
        using f(2) that(1) unfolding positive_book_def by auto
    qed
    show "positive_book s'" if "positive_book s" "bids s \<noteq> []" "market_sell_step now mo s = Some (mo', s')"
      for now mo s mo' s'
    proof -
      let ?q = "min (quantity mo) (quantity (best (bids s)))"
      have f: "filled (bids s) ?q (bids s')" "asks s' = asks s"
        using market_sell_step_effect [OF that(2), of now mo] that(3) by auto
      have "\<forall>e\<in>set (bids s'). 0 < quantity (entry_order e)"
        by (rule filled_positive [OF that(2) f(1)]) (use that(1) in \<open>simp_all add: positive_book_def\<close>)
      then show ?thesis
        using f(2) that(1) unfolding positive_book_def by auto
    qed
  qed (use assms(1) in \<open>auto simp: positive_book_def\<close>)
next
  case (Cancel oid)
  then show ?thesis
    using assms(1) cancel_order_sides [of oid s] by (auto simp: positive_book_def)
qed

lemma run_book_ok: "\<exists>s. run ops init = Some s \<and> book_ok s"
  by (rule run_rule) (use book_ok_init apply_op_book_ok in auto)

lemma run_last_trade_ok: "\<exists>s. run ops init = Some s \<and> last_trade_ok s"
  by (rule run_rule) (use apply_op_last_trade_ok in \<open>auto simp: last_trade_ok_def init_def\<close>)

definition positive_ops :: "op list \<Rightarrow> bool" where
  "positive_ops ops \<longleftrightarrow>
     (\<forall>x\<in>set ops. case x of Submit clock sd pr qty ty name \<Rightarrow> 0 < qty | Cancel oid \<Rightarrow> True)"

lemma run_positive_book:
  "positive_ops ops \<Longrightarrow> \<exists>s. run ops init = Some s \<and> positive_book s"
  by (rule run_rule) (use apply_op_positive_book in \<open>auto simp: positive_book_def positive_ops_def init_def\<close>)


section \<open>Reading the book\<close>

definition level :: "entry \<Rightarrow> real \<times> int" where
  "level e = (price (entry_order e), quantity (entry_order e))"

lemma keyed_bid_levels:
  assumes "\<forall>e\<in>set h. fst e = - price (entry_order e)"
  shows "map (\<lambda>(p, t, ord). (- p, quantity ord)) h = map level h"
  using assms by (auto simp: level_def entry_order_def)

lemma keyed_ask_levels:
  assumes "\<forall>e\<in>set h. fst e = price (entry_order e)"
  shows "map (\<lambda>(p, t, ord). (p, quantity ord)) h = map level h"
  using assms by (auto simp: level_def entry_order_def)

lemma get_order_book_wf:
  assumes "wf_book s"
  shows "get_order_book s = (rev (sort (map level (bids s))), sort (map level (asks s)))"
proof -
  have b: "map (\<lambda>(p, t, ord). (- p, quantity ord)) (bids s) = map level (bids s)"
    by (rule keyed_bid_levels) (use assms in \<open>simp add: wf_book_def keyed_def\<close>)
  have a: "map (\<lambda>(p, t, ord). (p, quantity ord)) (asks s) = map level (asks s)"
    by (rule keyed_ask_levels) (use assms in \<open>simp add: wf_book_def keyed_def\<close>)
  show ?thesis
    unfolding get_order_book_def a b ..
qed

lemma lex_fst_mono: "(a :: real \<times> int) \<le> b \<Longrightarrow> fst a \<le> fst b"
  by (cases a; cases b) auto

lemma sorted_map_fst: "sorted (xs :: (real \<times> int) list) \<Longrightarrow> sorted (map fst xs)"
  by (induction xs) (auto simp: lex_fst_mono)

lemma sorted_last_ge:
  assumes "sorted (xs :: (real \<times> int) list)" "x \<in> set xs"
  shows "x \<le> last xs"
  using assms by (induction xs) (auto split: if_splits)

lemma sorted_hd_le:
  assumes "sorted (xs :: (real \<times> int) list)" "x \<in> set xs"
  shows "hd xs \<le> x"
  using assms by (cases xs) auto

lemma top_bid_level:
  assumes "wf_book s" "bids s \<noteq> []"
  shows "fst (rev (sort (map level (bids s))) ! 0) = price (best (bids s))"
proof -
  let ?xs = "sort (map level (bids s))"
  have ne: "?xs \<noteq> []"
    using assms(2) by (metis length_sort length_map length_0_conv)
  have top: "rev ?xs ! 0 = last ?xs"
    using ne by (simp add: hd_rev flip: hd_conv_nth)
  have "last ?xs \<in> set ?xs"
    using ne last_in_set by blast
  then obtain e where e: "e \<in> set (bids s)" "last ?xs = level e"
    by auto
  have r: "bids s ! 0 \<in> set (bids s)"
    using assms(2) by simp
  then have "level (bids s ! 0) \<in> set ?xs"
    by simp
  then have "level (bids s ! 0) \<le> last ?xs"
    using sorted_last_ge [of ?xs] by simp
  then have "price (best (bids s)) \<le> price (entry_order e)"
    using lex_fst_mono e(2) by (fastforce simp: level_def best_def)
  moreover have "price (entry_order e) \<le> price (best (bids s))"
    using best_bid_highest [OF assms(1) e(1)] .
  ultimately show ?thesis
    using top e(2) by (simp add: level_def)
qed

lemma top_ask_level:
  assumes "wf_book s" "asks s \<noteq> []"
  shows "fst (sort (map level (asks s)) ! 0) = price (best (asks s))"
proof -
  let ?xs = "sort (map level (asks s))"
  have ne: "?xs \<noteq> []"
    using assms(2) by (metis length_sort length_map length_0_conv)
  have top: "?xs ! 0 = hd ?xs"
    using ne by (simp add: hd_conv_nth)
  have "hd ?xs \<in> set ?xs"
    using ne hd_in_set by blast
  then obtain e where e: "e \<in> set (asks s)" "hd ?xs = level e"
    by auto
  have r: "asks s ! 0 \<in> set (asks s)"
    using assms(2) by simp
  then have "level (asks s ! 0) \<in> set ?xs"
    by simp
  then have "hd ?xs \<le> level (asks s ! 0)"
    using sorted_hd_le [of ?xs] by simp
  then have "price (entry_order e) \<le> price (best (asks s))"
    using lex_fst_mono e(2) by (fastforce simp: level_def best_def)
  moreover have "price (best (asks s)) \<le> price (entry_order e)"
    using best_ask_lowest [OF assms(1) e(1)] .
  ultimately show ?thesis
    using top e(2) by (simp add: level_def)
qed

lemma get_mid_price_wf:
  assumes "wf_book s"
  shows "get_mid_price float_add float_half s =
     (if bids s \<noteq> [] \<and> asks s \<noteq> []
      then float_half (float_add (price (best (bids s))) (price (best (asks s))))
      else Finite (last_trade_price s))"
proof -
  have "sort (map level (bids s)) \<noteq> [] \<longleftrightarrow> bids s \<noteq> []"
    by (metis length_sort length_map length_0_conv)
  moreover have "sort (map level (asks s)) \<noteq> [] \<longleftrightarrow> asks s \<noteq> []"
    by (metis length_sort length_map length_0_conv)
  ultimately show ?thesis
    using top_bid_level [OF assms] top_ask_level [OF assms]
    by (simp add: get_mid_price_def get_order_book_wf [OF assms])
qed


lemma run_reachable: "\<exists>s. run ops init = Some s \<and> wf_book s \<and> no_cross s \<and> last_trade_ok s"
proof -
  obtain s where s: "run ops init = Some s" "book_ok s"
    using run_book_ok by blast
  moreover have "last_trade_ok s"
    using run_last_trade_ok [of ops] s(1) by auto
  ultimately show ?thesis
    by (auto simp: book_ok_def)
qed

text \<open>
  Claim C7, as stated, fails: \<^verbatim>\<open>get_order_book\<close> lists every resting order and does not
  add up the orders of a price level. Two bids at 100 give two entries at 100.
\<close>

theorem get_order_book_counterexample:
  "map_option get_order_book
     (run [Submit (const_clock 0) BUY 100 10 LIMIT ''mm'',
           Submit (const_clock 1) BUY 100 5 LIMIT ''rt''] init)
   = Some ([(100, 10), (100, 5)], [])"
  by (simp add: book_eval get_order_book_def const_clock_def)

text \<open>
  Claim C7, amended. In every reachable book \<^verbatim>\<open>get_order_book\<close> returns, per side, one
  entry (price, remaining quantity) for each resting order, orders at the same price being
  listed separately; bids are sorted descending and asks ascending, as pairs and hence by
  price; when every submitted quantity was positive every listed quantity is positive. The
  function returns the two lists only: the book is not changed by it.
\<close>

theorem get_order_book_per_order:
  "run ops init = Some s \<Longrightarrow>
     mset (fst (get_order_book s)) = image_mset level (mset (bids s)) \<and>
     mset (snd (get_order_book s)) = image_mset level (mset (asks s)) \<and>
     sorted (rev (fst (get_order_book s))) \<and> sorted (rev (map fst (fst (get_order_book s)))) \<and>
     sorted (snd (get_order_book s)) \<and> sorted (map fst (snd (get_order_book s))) \<and>
     (positive_ops ops \<longrightarrow>
        (\<forall>(p, q)\<in>set (fst (get_order_book s)) \<union> set (snd (get_order_book s)). 0 < q))"
proof -
  assume r: "run ops init = Some s"
  have wf: "wf_book s"
    using run_reachable [of ops] r by auto
  note g = get_order_book_wf [OF wf]
  have pos: "\<forall>(p, q)\<in>set (fst (get_order_book s)) \<union> set (snd (get_order_book s)). 0 < q"
    if "positive_ops ops"
  proof -
    have "positive_book s"
      using run_positive_book [OF that] r by auto
    then show ?thesis
      unfolding g by (auto simp: positive_book_def level_def)
  qed
  have "sorted (rev (map fst (fst (get_order_book s))))"
    unfolding g using sorted_map_fst [of "sort (map level (bids s))"] by (simp add: rev_map)
  moreover have "sorted (map fst (snd (get_order_book s)))"
    unfolding g using sorted_map_fst [of "sort (map level (asks s))"] by simp
  ultimately show ?thesis
    using pos by (simp add: g)
qed

theorem get_order_book_per_order_witness:
  "\<exists>s. run [Submit (const_clock 0) BUY 100 10 LIMIT ''mm'',
            Submit (const_clock 1) BUY 100 5 LIMIT ''rt'',
            Submit (const_clock 2) SELL 101 7 LIMIT ''mm''] init = Some s \<and>
       positive_ops [Submit (const_clock 0) BUY 100 10 LIMIT ''mm'',
            Submit (const_clock 1) BUY 100 5 LIMIT ''rt'',
            Submit (const_clock 2) SELL 101 7 LIMIT ''mm''] \<and>
       get_order_book s = ([(100, 10), (100, 5)], [(101, 7)]) \<and>
       sorted (rev (map fst (fst (get_order_book s)))) \<and>
       (\<forall>(p, q)\<in>set (fst (get_order_book s)) \<union> set (snd (get_order_book s)). 0 < q)"
proof -
  let ?ops = "[Submit (const_clock 0) BUY 100 10 LIMIT ''mm'',
            Submit (const_clock 1) BUY 100 5 LIMIT ''rt'',
            Submit (const_clock 2) SELL 101 7 LIMIT ''mm'']"
  obtain s where s: "run ?ops init = Some s"
    using run_reachable [of ?ops] by blast
  have p: "positive_ops ?ops"
    by (simp add: positive_ops_def)
  have "\<forall>s. run ?ops init = Some s \<longrightarrow> get_order_book s = ([(100, 10), (100, 5)], [(101, 7)])"
    by (simp add: book_eval get_order_book_def const_clock_def)
  then show ?thesis
    using get_order_book_per_order [OF s] s p by blast
qed

text \<open>
  The exponent that \<open>float_exponent\<close> finds is the \<open>k\<close> with
  \<open>2 powi k \<le> a < 2 powi (k + 1)\<close>, which is \<open>\<lfloor>log 2 a\<rfloor>\<close> in the range of the normal
  numbers; it gives the value of \<open>round_to_double\<close> at a number of known magnitude.
\<close>

lemma exponent_from_eq:
  assumes "a < 2 powi (k' + 1)" "k \<le> k'" "k' - k \<le> int n" "k < k' \<longrightarrow> 2 powi k' \<le> a"
  shows "exponent_from n k a = k'"
  using assms
proof (induction n arbitrary: k)
  case 0
  then show ?case by simp
next
  case (Suc n)
  show ?case
  proof (cases "k = k'")
    case True
    then show ?thesis
      using Suc.prems(1) by simp
  next
    case False
    then have lt: "k < k'"
      using Suc.prems(2) by simp
    have "(2::real) powi (k + 1) \<le> 2 powi k'"
      by (rule power_int_increasing) (use lt in simp_all)
    then have "2 powi (k + 1) \<le> a"
      using Suc.prems(4) lt by simp
    moreover have "exponent_from n (k + 1) a = k'"
      by (rule Suc.IH) (use Suc.prems lt in auto)
    ultimately show ?thesis
      by simp
  qed
qed

lemma float_exponent_eq:
  assumes "2 powi k \<le> a" "a < 2 powi (k + 1)" "- 1022 \<le> k" "k \<le> 1023"
  shows "float_exponent a = k"
  unfolding float_exponent_def by (rule exponent_from_eq) (use assms in auto)

lemma float_exponent_log:
  assumes "2 powi (- 1022) \<le> a" "a < 2 powi 1024"
  shows "float_exponent a = \<lfloor>log 2 a\<rfloor>"
proof -
  define k where "k = \<lfloor>log 2 a\<rfloor>"
  have "(0::real) < 2 powi (- 1022)"
    by (rule zero_less_power_int) simp
  then have pos: "0 < a"
    using assms(1) by linarith
  have p: "(2::real) powr real_of_int j = 2 powi j" for j
    by (simp only: powr_real_of_int' [of 2, simplified])
  have b: "2 powi k \<le> a" "a < 2 powi (k + 1)"
    using floor_log_eq_powr_iff [of a 2 k] pos p [of k] p [of "k + 1"] by (simp_all add: k_def)
  have "- 1022 \<le> k"
  proof (rule ccontr)
    assume "\<not> - 1022 \<le> k"
    then have "(2::real) powi (k + 1) \<le> 2 powi (- 1022)"
      by (intro power_int_increasing) simp_all
    then show False
      using b(2) assms(1) by linarith
  qed
  moreover have "k \<le> 1023"
  proof (rule ccontr)
    assume "\<not> k \<le> 1023"
    then have "(2::real) powi 1024 \<le> 2 powi k"
      by (intro power_int_increasing) simp_all
    then show False
      using b(1) assms(2) by linarith
  qed
  ultimately show ?thesis
    using float_exponent_eq [OF b] by (simp add: k_def)
qed










text \<open>
  Claim C10. The default reference price is 100: it is the last trade price of the new engine
  and the mid price of the empty book. In a reachable book with an empty side
  \<^verbatim>\<open>get_mid_price\<close> is 100 while no trade was recorded and the price of the last trade
  of the log afterwards; every pass of the limit loop and of the two market loops records
  a trade and sets the last trade price to its price.
\<close>

theorem default_reference_price:
  "get_mid_price float_add float_half init = Finite 100 \<and> last_trade_price init = 100 \<and>
   (run ops init = Some s \<and> (bids s = [] \<or> asks s = []) \<longrightarrow>
      get_mid_price float_add float_half s
        = Finite (if trades s = [] then 100 else tr_price (last (trades s)))) \<and>
   (bids s1 \<noteq> [] \<and> asks s1 \<noteq> [] \<and> match_step now s1 = Some s2 \<longrightarrow>
      trades s2 \<noteq> [] \<and> butlast (trades s2) = trades s1 \<and>
      last_trade_price s2 = tr_price (last (trades s2))) \<and>
   (asks s1 \<noteq> [] \<and> market_buy_step now mo s1 = Some (mo', s2) \<longrightarrow>
      trades s2 \<noteq> [] \<and> butlast (trades s2) = trades s1 \<and>
      last_trade_price s2 = tr_price (last (trades s2))) \<and>
   (bids s1 \<noteq> [] \<and> market_sell_step now mo s1 = Some (mo', s2) \<longrightarrow>
      trades s2 \<noteq> [] \<and> butlast (trades s2) = trades s1 \<and>
      last_trade_price s2 = tr_price (last (trades s2)))"
proof (intro conjI impI)
  show "get_mid_price float_add float_half init = Finite 100"
    by (simp add: get_mid_price_def get_order_book_def init_def)
  show "last_trade_price init = 100"
    by (simp add: init_def)
next
  assume a: "run ops init = Some s \<and> (bids s = [] \<or> asks s = [])"
  then have wf: "wf_book s" and lt: "last_trade_ok s"
    using run_reachable [of ops] by auto
  show "get_mid_price float_add float_half s
      = Finite (if trades s = [] then 100 else tr_price (last (trades s)))"
    using get_mid_price_wf [OF wf] lt a by (auto simp: last_trade_ok_def)
next
  assume a: "bids s1 \<noteq> [] \<and> asks s1 \<noteq> [] \<and> match_step now s1 = Some s2"
  then have e: "trades s2 = trades s1 @ [Trade now (price (best (asks s1)))
        (min (quantity (best (bids s1))) (quantity (best (asks s1))))
        (if timestamp (best (bids s1)) > timestamp (best (asks s1)) then BUY else SELL)]"
      "last_trade_price s2 = price (best (asks s1))"
    using match_step_effect [of s1 now] by auto
  show "trades s2 \<noteq> []" "butlast (trades s2) = trades s1"
    "last_trade_price s2 = tr_price (last (trades s2))"
    using e by simp_all
next
  assume a: "asks s1 \<noteq> [] \<and> market_buy_step now mo s1 = Some (mo', s2)"
  then have e: "trades s2 = trades s1 @ [Trade now (price (best (asks s1)))
        (min (quantity mo) (quantity (best (asks s1)))) BUY]"
      "last_trade_price s2 = price (best (asks s1))"
    using market_buy_step_effect [of s1 now mo] by auto
  show "trades s2 \<noteq> []" "butlast (trades s2) = trades s1"
    "last_trade_price s2 = tr_price (last (trades s2))"
    using e by simp_all
next
  assume a: "bids s1 \<noteq> [] \<and> market_sell_step now mo s1 = Some (mo', s2)"
  then have e: "trades s2 = trades s1 @ [Trade now (price (best (bids s1)))
        (min (quantity mo) (quantity (best (bids s1)))) SELL]"
      "last_trade_price s2 = price (best (bids s1))"
    using market_sell_step_effect [of s1 now mo] by auto
  show "trades s2 \<noteq> []" "butlast (trades s2) = trades s1"
    "last_trade_price s2 = tr_price (last (trades s2))"
    using e by simp_all
qed

theorem default_reference_price_witness:
  "(\<exists>s. run [Submit (const_clock 0) BUY 100 10 LIMIT ''mm'',
            Submit (const_clock 1) SELL 99 5 LIMIT ''rt''] init = Some s \<and>
       asks s = [] \<and> trades s \<noteq> [] \<and> get_mid_price double_add double_half s = Finite 99) \<and>
   bids crossed_example \<noteq> [] \<and> asks crossed_example \<noteq> [] \<and>
   (\<exists>s2. match_step 2 crossed_example = Some s2 \<and> trades s2 \<noteq> [] \<and> last_trade_price s2 = 99) \<and>
   (\<exists>mo' s2. market_buy_step 2 \<lparr>order_id = 3, side = BUY, price = 0, quantity = 15,
        order_type = MARKET, timestamp = 2, participant_name = ''rt''\<rparr> crossed_example = Some (mo', s2) \<and>
      trades s2 \<noteq> [] \<and> last_trade_price s2 = 99) \<and>
   (\<exists>mo' s2. market_sell_step 2 \<lparr>order_id = 3, side = SELL, price = 0, quantity = 3,
        order_type = MARKET, timestamp = 2, participant_name = ''rt''\<rparr> crossed_example = Some (mo', s2) \<and>
      trades s2 \<noteq> [] \<and> last_trade_price s2 = 100)"
proof -
  let ?ops = "[Submit (const_clock 0) BUY 100 10 LIMIT ''mm'',
            Submit (const_clock 1) SELL 99 5 LIMIT ''rt'']"
  let ?b = "\<lparr>order_id = 3, side = BUY, price = 0, quantity = 15,
        order_type = MARKET, timestamp = 2, participant_name = ''rt''\<rparr>"
  let ?c = "\<lparr>order_id = 3, side = SELL, price = 0, quantity = 3,
        order_type = MARKET, timestamp = 2, participant_name = ''rt''\<rparr>"
  have h: "bids crossed_example \<noteq> []" "asks crossed_example \<noteq> []"
    by (simp_all add: crossed_example_def)
  obtain s where s: "run ?ops init = Some s"
    using run_reachable [of ?ops] by blast
  have e: "\<forall>s. run ?ops init = Some s \<longrightarrow> asks s = [] \<and> trades s \<noteq> [] \<and> tr_price (last (trades s)) = 99"
    by (simp add: book_eval const_clock_def)
  have "run ?ops init = Some s \<and> (bids s = [] \<or> asks s = []) \<longrightarrow>
      get_mid_price double_add double_half s
        = Finite (if trades s = [] then 100 else tr_price (last (trades s)))"
    using default_reference_price [where ops = ?ops and s = s] by blast
  then have 1: "\<exists>s. run ?ops init = Some s \<and> asks s = [] \<and> trades s \<noteq> [] \<and>
      get_mid_price double_add double_half s = Finite 99"
    using s e by auto
  obtain s2 where m: "match_step 2 crossed_example = Some s2"
    using match_step_Some [OF h, of 2] by blast
  have "\<forall>s2. match_step 2 crossed_example = Some s2 \<longrightarrow> tr_price (last (trades s2)) = 99"
    by (simp add: book_eval crossed_example_def)
  moreover have "trades s2 \<noteq> [] \<and> butlast (trades s2) = trades crossed_example \<and>
      last_trade_price s2 = tr_price (last (trades s2))"
    using default_reference_price [where ?s1.0 = crossed_example and ?s2.0 = s2 and now = 2,
      THEN conjunct2, THEN conjunct2, THEN conjunct2, THEN conjunct1] h m by blast
  ultimately have 2: "\<exists>s2. match_step 2 crossed_example = Some s2 \<and> trades s2 \<noteq> [] \<and> last_trade_price s2 = 99"
    using m by auto
  obtain mo3 s3 where b: "market_buy_step 2 ?b crossed_example = Some (mo3, s3)"
    using market_buy_step_Some [OF h(2), of ?b 2] by blast
  have "\<forall>mo s2. market_buy_step 2 ?b crossed_example = Some (mo, s2) \<longrightarrow> tr_price (last (trades s2)) = 99"
    by (simp add: book_eval crossed_example_def)
  moreover have "trades s3 \<noteq> [] \<and> butlast (trades s3) = trades crossed_example \<and>
      last_trade_price s3 = tr_price (last (trades s3))"
    using default_reference_price [where ?s1.0 = crossed_example and ?s2.0 = s3 and now = 2
        and mo = ?b and mo' = mo3,
      THEN conjunct2, THEN conjunct2, THEN conjunct2, THEN conjunct2, THEN conjunct1] h b by blast
  ultimately have 3: "\<exists>mo' s2. market_buy_step 2 ?b crossed_example = Some (mo', s2) \<and>
      trades s2 \<noteq> [] \<and> last_trade_price s2 = 99"
    using b by auto
  obtain mo4 s4 where c: "market_sell_step 2 ?c crossed_example = Some (mo4, s4)"
    using market_sell_step_Some [OF h(1), of ?c 2] by blast
  have "\<forall>mo s2. market_sell_step 2 ?c crossed_example = Some (mo, s2) \<longrightarrow> tr_price (last (trades s2)) = 100"
    by (simp add: book_eval crossed_example_def)
  moreover have "trades s4 \<noteq> [] \<and> butlast (trades s4) = trades crossed_example \<and>
      last_trade_price s4 = tr_price (last (trades s4))"
    using default_reference_price [where ?s1.0 = crossed_example and ?s2.0 = s4 and now = 2
        and mo = ?c and mo' = mo4,
      THEN conjunct2, THEN conjunct2, THEN conjunct2, THEN conjunct2, THEN conjunct2] h c by blast
  ultimately have 4: "\<exists>mo' s2. market_sell_step 2 ?c crossed_example = Some (mo', s2) \<and>
      trades s2 \<noteq> [] \<and> last_trade_price s2 = 100"
    using c by auto
  show ?thesis
    using 1 2 3 4 h by blast
qed

section \<open>Quantity conservation\<close>

lemma total_quantity_heappush [simp]:
  "total_quantity (heappush h e) = total_quantity h + quantity (entry_order e)"
  by (simp add: total_quantity_mset mset_heappush)

text \<open>
  \<open>traded s\<close> is the quantity recorded in the trade log. \<open>resting_fill x s s'\<close> is the quantity
  that operation \<open>x\<close>, taking the book from \<open>s\<close> to \<open>s'\<close>, filled from resting orders: a
  submission only touches the opposite side by filling it, so it is what that side lost; a
  cancellation fills nothing.
\<close>

definition traded :: "OrderBook \<Rightarrow> int" where
  "traded s = sum_list (map tr_quantity (trades s))"

fun resting_fill :: "op \<Rightarrow> OrderBook \<Rightarrow> OrderBook \<Rightarrow> int" where
  "resting_fill (Submit clock sd pr qty ty name) s s' =
     (if sd = BUY then total_quantity (asks s) - total_quantity (asks s')
      else total_quantity (bids s) - total_quantity (bids s'))"
| "resting_fill (Cancel oid) s s' = 0"

fun total_resting_fill :: "op list \<Rightarrow> OrderBook \<Rightarrow> int" where
  "total_resting_fill [] s = 0"
| "total_resting_fill (x # xs) s =
     (case apply_op x s of None \<Rightarrow> 0
      | Some s' \<Rightarrow> resting_fill x s s' + total_resting_fill xs s')"

lemma match_step_conservation:
  assumes "bids s \<noteq> []" "asks s \<noteq> []"
  shows "\<exists>s' t. match_step now s = Some s' \<and> trades s' = trades s @ [t] \<and>
     tr_quantity t = min (quantity (best (bids s))) (quantity (best (asks s))) \<and>
     total_quantity (bids s') = total_quantity (bids s) - tr_quantity t \<and>
     total_quantity (asks s') = total_quantity (asks s) - tr_quantity t \<and>
     traded s' = traded s + tr_quantity t"
proof -
  let ?q = "min (quantity (best (bids s))) (quantity (best (asks s)))"
  obtain s' where s': "match_step now s = Some s'"
    "trades s' = trades s @ [Trade now (price (best (asks s))) ?q
        (if timestamp (best (bids s)) > timestamp (best (asks s)) then BUY else SELL)]"
    "filled (bids s) ?q (bids s')" "filled (asks s) ?q (asks s')"
    using match_step_effect [OF assms, of now] by blast
  show ?thesis
    using s' filled_total_quantity [OF assms(1) s'(3)] filled_total_quantity [OF assms(2) s'(4)]
    by (simp add: traded_def)
qed

lemma market_buy_step_conservation:
  assumes "asks s \<noteq> []"
  shows "\<exists>mo' s' t. market_buy_step now mo s = Some (mo', s') \<and> trades s' = trades s @ [t] \<and>
     tr_quantity t = min (quantity mo) (quantity (best (asks s))) \<and>
     quantity mo' = quantity mo - tr_quantity t \<and>
     total_quantity (asks s') = total_quantity (asks s) - tr_quantity t \<and>
     total_quantity (bids s') = total_quantity (bids s) \<and>
     traded s' = traded s + tr_quantity t"
proof -
  let ?q = "min (quantity mo) (quantity (best (asks s)))"
  obtain mo' s' where s': "market_buy_step now mo s = Some (mo', s')"
    "mo' = mo\<lparr>quantity := quantity mo - ?q\<rparr>"
    "trades s' = trades s @ [Trade now (price (best (asks s))) ?q BUY]"
    "filled (asks s) ?q (asks s')" "bids s' = bids s"
    using market_buy_step_effect [OF assms, of now mo] by blast
  show ?thesis
    using s' filled_total_quantity [OF assms s'(4)] by (simp add: traded_def)
qed

lemma market_sell_step_conservation:
  assumes "bids s \<noteq> []"
  shows "\<exists>mo' s' t. market_sell_step now mo s = Some (mo', s') \<and> trades s' = trades s @ [t] \<and>
     tr_quantity t = min (quantity mo) (quantity (best (bids s))) \<and>
     quantity mo' = quantity mo - tr_quantity t \<and>
     total_quantity (bids s') = total_quantity (bids s) - tr_quantity t \<and>
     total_quantity (asks s') = total_quantity (asks s) \<and>
     traded s' = traded s + tr_quantity t"
proof -
  let ?q = "min (quantity mo) (quantity (best (bids s)))"
  obtain mo' s' where s': "market_sell_step now mo s = Some (mo', s')"
    "mo' = mo\<lparr>quantity := quantity mo - ?q\<rparr>"
    "trades s' = trades s @ [Trade now (price (best (bids s))) ?q SELL]"
    "filled (bids s) ?q (bids s')" "asks s' = asks s"
    using market_sell_step_effect [OF assms, of now mo] by blast
  show ?thesis
    using s' filled_total_quantity [OF assms s'(4)] by (simp add: traded_def)
qed

lemma add_order_conservation:
  "\<exists>ok s'. add_order clock ord s = Some (ok, s') \<and>
     traded s' - traded s =
       (if side ord = BUY then total_quantity (asks s) - total_quantity (asks s')
        else total_quantity (bids s) - total_quantity (bids s'))"
proof -
  let ?P = "\<lambda>s1. traded s1 - traded s =
       (if side ord = BUY then total_quantity (asks s) - total_quantity (asks s1)
        else total_quantity (bids s) - total_quantity (bids s1))"
  have "\<exists>ok s'. add_order clock ord s = Some (ok, s') \<and> ?P s' \<and>
     (order_type ord \<noteq> MARKET \<longrightarrow> ok \<and>
        (bids s' = [] \<or> asks s' = [] \<or> price (best (bids s')) < price (best (asks s'))))"
  proof (rule add_order_rule [where P = ?P])
    show "?P s" by simp
    show "?P (limit_insert ord s)"
      by (simp add: limit_insert_def Let_def traded_def)
    show "?P s2" if "?P s1" "bids s1 \<noteq> []" "asks s1 \<noteq> []" "match_step now s1 = Some s2" for now s1 s2
      using match_step_conservation [OF that(2,3), of now] that(1,4) by (auto split: if_splits)
    show "?P s2" if "?P s1" "asks s1 \<noteq> []" "side ord = BUY" "market_buy_step now mo s1 = Some (mo', s2)"
      for now mo s1 mo' s2
      using market_buy_step_conservation [OF that(2), of now mo] that(1,3,4) by auto
    show "?P s2" if "?P s1" "bids s1 \<noteq> []" "side ord = SELL" "market_sell_step now mo s1 = Some (mo', s2)"
      for now mo s1 mo' s2
      using market_sell_step_conservation [OF that(2), of now mo] that(1,3,4) by auto
  qed
  then show ?thesis by blast
qed

lemma apply_op_conservation:
  "\<exists>s'. apply_op x s = Some s' \<and> traded s' = traded s + resting_fill x s s'"
proof (cases x)
  case (Submit clock sd pr qty ty name)
  let ?ord = "\<lparr>order_id = next_order_id s, side = sd, price = pr, quantity = qty, order_type = ty,
                 timestamp = clock 0, participant_name = name\<rparr>"
  let ?s0 = "s\<lparr>next_order_id := next_order_id s + 1\<rparr>"
  obtain ok s' where a: "add_order (\<lambda>n. clock (Suc n)) ?ord ?s0 = Some (ok, s')"
    "traded s' - traded ?s0 =
       (if side ?ord = BUY then total_quantity (asks ?s0) - total_quantity (asks s')
        else total_quantity (bids ?s0) - total_quantity (bids s'))"
    using add_order_conservation [of "\<lambda>n. clock (Suc n)" ?ord ?s0] by blast
  have "apply_op x s = Some s'"
    using a(1) by (simp add: Submit add_order_api_def Let_def)
  moreover have "traded ?s0 = traded s" "asks ?s0 = asks s" "bids ?s0 = bids s"
    by (simp_all add: traded_def)
  then have "traded s' = traded s + resting_fill x s s'"
    using a(2) by (auto simp: Submit)
  ultimately show ?thesis by simp
next
  case (Cancel oid)
  then show ?thesis
    using cancel_order_sides [of oid s] by (simp add: traded_def)
qed

lemma run_conservation:
  "\<exists>s'. run ops s = Some s' \<and> traded s' = traded s + total_resting_fill ops s"
proof (induction ops arbitrary: s)
  case Nil
  then show ?case by simp
next
  case (Cons x xs)
  obtain s1 where s1: "apply_op x s = Some s1" "traded s1 = traded s + resting_fill x s s1"
    using apply_op_conservation by blast
  obtain s' where "run xs s1 = Some s'" "traded s' = traded s1 + total_resting_fill xs s1"
    using Cons.IH by blast
  then show ?case
    using s1 by simp
qed


text \<open>
  Claim C9. Every pass of the limit loop takes the quantity of the trade it appends off the
  bid side and off the ask side; every pass of a market loop takes the quantity of the trade
  it appends off the market order and off the opposite side. Over any sequence of operations
  from the empty book, the quantity recorded in the trade log is the quantity filled from
  resting orders.
\<close>

theorem quantity_conservation:
  "(bids s \<noteq> [] \<and> asks s \<noteq> [] \<longrightarrow>
      (\<exists>s' t. match_step now s = Some s' \<and> trades s' = trades s @ [t] \<and>
         tr_quantity t = min (quantity (best (bids s))) (quantity (best (asks s))) \<and>
         total_quantity (bids s) - total_quantity (bids s') = tr_quantity t \<and>
         total_quantity (asks s) - total_quantity (asks s') = tr_quantity t)) \<and>
   (asks s \<noteq> [] \<longrightarrow>
      (\<exists>mo' s' t. market_buy_step now mo s = Some (mo', s') \<and> trades s' = trades s @ [t] \<and>
         tr_quantity t = min (quantity mo) (quantity (best (asks s))) \<and>
         quantity mo - quantity mo' = tr_quantity t \<and>
         total_quantity (asks s) - total_quantity (asks s') = tr_quantity t)) \<and>
   (bids s \<noteq> [] \<longrightarrow>
      (\<exists>mo' s' t. market_sell_step now mo s = Some (mo', s') \<and> trades s' = trades s @ [t] \<and>
         tr_quantity t = min (quantity mo) (quantity (best (bids s))) \<and>
         quantity mo - quantity mo' = tr_quantity t \<and>
         total_quantity (bids s) - total_quantity (bids s') = tr_quantity t)) \<and>
   (\<exists>s'. run ops init = Some s' \<and> traded s' = total_resting_fill ops init)"
proof (intro conjI impI)
  assume "bids s \<noteq> [] \<and> asks s \<noteq> []"
  then obtain s' t where "match_step now s = Some s'" "trades s' = trades s @ [t]"
     "tr_quantity t = min (quantity (best (bids s))) (quantity (best (asks s)))"
     "total_quantity (bids s') = total_quantity (bids s) - tr_quantity t"
     "total_quantity (asks s') = total_quantity (asks s) - tr_quantity t"
    using match_step_conservation [of s now] by blast
  then show "\<exists>s' t. match_step now s = Some s' \<and> trades s' = trades s @ [t] \<and>
         tr_quantity t = min (quantity (best (bids s))) (quantity (best (asks s))) \<and>
         total_quantity (bids s) - total_quantity (bids s') = tr_quantity t \<and>
         total_quantity (asks s) - total_quantity (asks s') = tr_quantity t"
    by (intro exI [of _ s'] exI [of _ t]) simp
next
  assume "asks s \<noteq> []"
  then obtain mo' s' t where "market_buy_step now mo s = Some (mo', s')" "trades s' = trades s @ [t]"
     "tr_quantity t = min (quantity mo) (quantity (best (asks s)))"
     "quantity mo' = quantity mo - tr_quantity t"
     "total_quantity (asks s') = total_quantity (asks s) - tr_quantity t"
    using market_buy_step_conservation [of s now mo] by blast
  then show "\<exists>mo' s' t. market_buy_step now mo s = Some (mo', s') \<and> trades s' = trades s @ [t] \<and>
         tr_quantity t = min (quantity mo) (quantity (best (asks s))) \<and>
         quantity mo - quantity mo' = tr_quantity t \<and>
         total_quantity (asks s) - total_quantity (asks s') = tr_quantity t"
    by (intro exI [of _ mo'] exI [of _ s'] exI [of _ t]) simp
next
  assume "bids s \<noteq> []"
  then obtain mo' s' t where "market_sell_step now mo s = Some (mo', s')" "trades s' = trades s @ [t]"
     "tr_quantity t = min (quantity mo) (quantity (best (bids s)))"
     "quantity mo' = quantity mo - tr_quantity t"
     "total_quantity (bids s') = total_quantity (bids s) - tr_quantity t"
    using market_sell_step_conservation [of s now mo] by blast
  then show "\<exists>mo' s' t. market_sell_step now mo s = Some (mo', s') \<and> trades s' = trades s @ [t] \<and>
         tr_quantity t = min (quantity mo) (quantity (best (bids s))) \<and>
         quantity mo - quantity mo' = tr_quantity t \<and>
         total_quantity (bids s) - total_quantity (bids s') = tr_quantity t"
    by (intro exI [of _ mo'] exI [of _ s'] exI [of _ t]) simp
next
  show "\<exists>s'. run ops init = Some s' \<and> traded s' = total_resting_fill ops init"
    using run_conservation [of ops init] by (simp add: traded_def init_def)
qed

theorem quantity_conservation_witness:
  "bids crossed_example \<noteq> [] \<and> asks crossed_example \<noteq> [] \<and>
   (\<exists>s' t. match_step 2 crossed_example = Some s' \<and> trades s' = [t] \<and> tr_quantity t = 5 \<and>
      total_quantity (bids s') = 5 \<and> total_quantity (asks s') = 0)"
proof -
  have h: "bids crossed_example \<noteq> [] \<and> asks crossed_example \<noteq> []"
    by (simp add: crossed_example_def)
  have "bids crossed_example \<noteq> [] \<and> asks crossed_example \<noteq> [] \<longrightarrow>
      (\<exists>s' t. match_step 2 crossed_example = Some s' \<and> trades s' = trades crossed_example @ [t] \<and>
         tr_quantity t = min (quantity (best (bids crossed_example))) (quantity (best (asks crossed_example))) \<and>
         total_quantity (bids crossed_example) - total_quantity (bids s') = tr_quantity t \<and>
         total_quantity (asks crossed_example) - total_quantity (asks s') = tr_quantity t)"
    using quantity_conservation [where s = crossed_example and now = 2] by blast
  then obtain s' t where r: "match_step 2 crossed_example = Some s'"
    "trades s' = trades crossed_example @ [t]"
    "tr_quantity t = min (quantity (best (bids crossed_example))) (quantity (best (asks crossed_example)))"
    "total_quantity (bids crossed_example) - total_quantity (bids s') = tr_quantity t"
    "total_quantity (asks crossed_example) - total_quantity (asks s') = tr_quantity t"
    using h by blast
  have e: "trades crossed_example = []" "quantity (best (bids crossed_example)) = 10"
    "quantity (best (asks crossed_example)) = 5"
    "total_quantity (bids crossed_example) = 10" "total_quantity (asks crossed_example) = 5"
    by (simp_all add: crossed_example_def best_def entry_order_def total_quantity_def)
  have "trades s' = [t] \<and> tr_quantity t = 5 \<and> total_quantity (bids s') = 5 \<and> total_quantity (asks s') = 0"
    using r(2-5) unfolding e by simp
  then show ?thesis
    using h r(1) by blast
qed

section \<open>The index and the queues\<close>

text \<open>
  \<open>indexed R m\<close>: the resting entries \<open>R\<close> carry pairwise different ids, and the index
  \<open>m\<close> holds, under the id of each, the very order of the entry.
\<close>

definition eid :: "entry \<Rightarrow> int" where
  "eid e = order_id (entry_order e)"

definition indexed :: "entry multiset \<Rightarrow> (int \<rightharpoonup> Order) \<Rightarrow> bool" where
  "indexed R m \<longleftrightarrow>
     (\<forall>i. count (image_mset eid R) i \<le> 1) \<and> (\<forall>e\<in>#R. m (eid e) = Some (entry_order e))"

lemma eid_dec_entry [simp]: "eid (dec_entry e q) = eid e"
  by (simp add: eid_def)

lemma indexed_mono:
  assumes "indexed R m" "R' \<subseteq># R"
  shows "indexed R' m"
proof -
  have "count (image_mset eid R') i \<le> count (image_mset eid R) i" for i
    using image_mset_subseteq_mono [OF assms(2), of eid] by (simp add: mset_subset_eq_count)
  then have "\<forall>i. count (image_mset eid R') i \<le> 1"
    using assms(1) unfolding indexed_def by (meson order_trans)
  moreover have "\<forall>e\<in>#R'. m (eid e) = Some (entry_order e)"
    using assms unfolding indexed_def by (meson mset_subset_eqD)
  ultimately show ?thesis
    by (simp add: indexed_def)
qed

lemma indexed_other:
  assumes "indexed R m" "r \<in># R" "e \<in># R - {#r#}"
  shows "eid e \<noteq> eid r"
proof
  assume eq: "eid e = eid r"
  have R: "R = add_mset r (R - {#r#})"
    using assms(2) by simp
  have "eid e \<in># image_mset eid (R - {#r#})"
    using assms(3) by simp
  then have "1 \<le> count (image_mset eid (R - {#r#})) (eid r)"
    using eq by (simp add: Suc_le_eq)
  then have "2 \<le> count (image_mset eid R) (eid r)"
    by (subst R) simp
  then show False
    using assms(1) unfolding indexed_def by (metis numeral_le_one_iff order_trans semiring_norm(69))
qed

lemma indexed_fill:
  assumes "indexed R m" "r \<in># R"
  shows "indexed (add_mset (dec_entry r q) (R - {#r#}))
           (sync_index m (entry_order r) (quantity (entry_order r) - q))"
proof -
  let ?m' = "sync_index m (entry_order r) (quantity (entry_order r) - q)"
  have R: "R = add_mset r (R - {#r#})"
    using assms(2) by simp
  have mr: "m (eid r) = Some (entry_order r)"
    using assms unfolding indexed_def by blast
  have m': "?m' = m(eid r \<mapsto> entry_order (dec_entry r q))"
    using mr by (simp add: sync_index_def eid_def dec_entry_def entry_order_def)
  have "image_mset eid (add_mset (dec_entry r q) (R - {#r#})) = image_mset eid R"
    by (subst (2) R) simp
  then have c: "\<forall>i. count (image_mset eid (add_mset (dec_entry r q) (R - {#r#}))) i \<le> 1"
    using assms(1) unfolding indexed_def by simp
  have "?m' (eid e) = Some (entry_order e)" if "e \<in># add_mset (dec_entry r q) (R - {#r#})" for e
  proof (cases "e \<in># R - {#r#}")
    case True
    then have "eid e \<noteq> eid r"
      using indexed_other [OF assms] by blast
    moreover have "m (eid e) = Some (entry_order e)"
      using True assms(1) unfolding indexed_def by (meson in_diffD)
    ultimately show ?thesis
      by (simp add: m')
  next
    case False
    then have "e = dec_entry r q"
      using that by simp
    then show ?thesis
      by (simp add: m')
  qed
  then show ?thesis
    using c unfolding indexed_def by blast
qed

lemma filled_subset: "h \<noteq> [] \<Longrightarrow> filled h q h' \<Longrightarrow> mset h' \<subseteq># add_mset (dec_entry (h ! 0) q) (mset h - {#h ! 0#})"
  unfolding filled_def by (auto split: if_splits)

text \<open>
  The invariant of the reachable books: the resting entries are indexed; the bid queue holds
  BUY orders and the ask queue SELL orders; every index entry is a limit order stored under
  its own id, and the ids in use are those from 1 to below \<^verbatim>\<open>next_order_id\<close>.
\<close>

definition resting :: "OrderBook \<Rightarrow> entry multiset" where
  "resting s = mset (bids s) + mset (asks s)"

definition index_entries_ok :: "(int \<rightharpoonup> Order) \<Rightarrow> int \<Rightarrow> bool" where
  "index_entries_ok m n \<longleftrightarrow>
     (\<forall>i ord. m i = Some ord \<longrightarrow> order_id ord = i \<and> order_type ord = LIMIT \<and> 1 \<le> i \<and> i < n)"

definition index_inv :: "OrderBook \<Rightarrow> bool" where
  "index_inv s \<longleftrightarrow>
     indexed (resting s) (order_map s) \<and>
     (\<forall>e\<in>set (bids s). side (entry_order e) = BUY) \<and>
     (\<forall>e\<in>set (asks s). side (entry_order e) = SELL) \<and>
     index_entries_ok (order_map s) (next_order_id s) \<and> 1 \<le> next_order_id s"

lemma index_entries_ok_sync:
  assumes "index_entries_ok m n" "m (order_id ord) = Some ord"
  shows "index_entries_ok (sync_index m ord q) n"
proof -
  have "sync_index m ord q = m(order_id ord \<mapsto> ord\<lparr>quantity := q\<rparr>)"
    using assms(2) by (simp add: sync_index_def)
  moreover have "order_type ord = LIMIT \<and> 1 \<le> order_id ord \<and> order_id ord < n"
    using assms unfolding index_entries_ok_def by blast
  ultimately show ?thesis
    using assms(1) unfolding index_entries_ok_def by simp
qed

lemma filled_sides:
  assumes "h \<noteq> []" "filled h q h'" "\<forall>e\<in>set h. side (entry_order e) = sd"
  shows "\<forall>e\<in>set h'. side (entry_order e) = sd"
proof
  fix e
  assume "e \<in> set h'"
  then have "e \<in># mset h'"
    by simp
  then have "e \<in># add_mset (dec_entry (h ! 0) q) (mset h - {#h ! 0#})"
    by (rule mset_subset_eqD [OF filled_subset [OF assms(1,2)]])
  then have "e = dec_entry (h ! 0) q \<or> e \<in> set h"
    by (auto dest: in_diffD)
  moreover have "h ! 0 \<in> set h"
    using assms(1) by simp
  ultimately show "side (entry_order e) = sd"
    using assms(3) by auto
qed


lemma index_inv_bids: "index_inv s \<Longrightarrow> \<forall>e\<in>set (bids s). side (entry_order e) = BUY"
  by (simp add: index_inv_def)

lemma index_inv_asks: "index_inv s \<Longrightarrow> \<forall>e\<in>set (asks s). side (entry_order e) = SELL"
  by (simp add: index_inv_def)

lemma index_inv_indexed: "index_inv s \<Longrightarrow> indexed (resting s) (order_map s)"
  by (simp add: index_inv_def)

lemma index_inv_entries: "index_inv s \<Longrightarrow> index_entries_ok (order_map s) (next_order_id s)"
  by (simp add: index_inv_def)

lemma index_inv_next: "index_inv s \<Longrightarrow> 1 \<le> next_order_id s"
  by (simp add: index_inv_def)

lemma index_invI:
  "indexed (resting s) (order_map s) \<Longrightarrow> \<forall>e\<in>set (bids s). side (entry_order e) = BUY \<Longrightarrow>
   \<forall>e\<in>set (asks s). side (entry_order e) = SELL \<Longrightarrow>
   index_entries_ok (order_map s) (next_order_id s) \<Longrightarrow> 1 \<le> next_order_id s \<Longrightarrow> index_inv s"
  by (simp add: index_inv_def)

lemma fill_side_indexed:
  assumes "indexed (mset h + X) m" "h \<noteq> []" "filled h q h'" "index_entries_ok m n"
  shows "indexed (mset h' + X) (sync_index m (best h) (quantity (best h) - q)) \<and>
         index_entries_ok (sync_index m (best h) (quantity (best h) - q)) n"
proof -
  let ?r = "h ! 0"
  let ?m' = "sync_index m (best h) (quantity (best h) - q)"
  have r: "?r \<in># mset h + X"
    using assms(2) by simp
  have "indexed (add_mset (dec_entry ?r q) (mset h + X - {#?r#})) ?m'"
    using indexed_fill [OF assms(1) r, of q] by (simp add: best_def)
  moreover have "mset h + X - {#?r#} = (mset h - {#?r#}) + X"
    using assms(2) by simp
  moreover have "mset h' + X \<subseteq># add_mset (dec_entry ?r q) (mset h - {#?r#}) + X"
    using filled_subset [OF assms(2,3)] by simp
  ultimately have "indexed (mset h' + X) ?m'"
    using indexed_mono by simp
  moreover have "m (order_id (best h)) = Some (best h)"
    using assms(1) r unfolding indexed_def eid_def best_def by blast
  then have "index_entries_ok ?m' n"
    using index_entries_ok_sync [OF assms(4)] by simp
  ultimately show ?thesis by simp
qed

lemma match_step_index_inv:
  assumes "index_inv s" "bids s \<noteq> []" "asks s \<noteq> []" "match_step now s = Some s'"
  shows "index_inv s'"
proof -
  let ?q = "min (quantity (best (bids s))) (quantity (best (asks s)))"
  let ?m1 = "sync_index (order_map s) (best (bids s)) (quantity (best (bids s)) - ?q)"
  let ?m2 = "sync_index ?m1 (best (asks s)) (quantity (best (asks s)) - ?q)"
  have f: "filled (bids s) ?q (bids s')" "filled (asks s) ?q (asks s')"
    "next_order_id s' = next_order_id s"
    using match_step_effect [OF assms(2,3), of now] assms(4) by auto
  have m: "order_map s' = ?m2"
    using match_step_Some [OF assms(2,3), of now] assms(4) by auto
  have 1: "indexed (mset (bids s') + mset (asks s)) ?m1" "index_entries_ok ?m1 (next_order_id s)"
    using fill_side_indexed [OF _ assms(2) f(1) index_inv_entries [OF assms(1)], of "mset (asks s)"]
      index_inv_indexed [OF assms(1)] by (simp_all add: resting_def)
  have "indexed (mset (asks s) + mset (bids s')) ?m1"
    using 1(1) by (simp add: add.commute)
  then have 2: "indexed (mset (asks s') + mset (bids s')) ?m2" "index_entries_ok ?m2 (next_order_id s)"
    using fill_side_indexed [OF _ assms(3) f(2) 1(2), of "mset (bids s')"] by simp_all
  have "indexed (resting s') (order_map s')"
    using 2(1) by (simp add: resting_def m add.commute)
  moreover have "\<forall>e\<in>set (bids s'). side (entry_order e) = BUY"
    by (rule filled_sides [OF assms(2) f(1) index_inv_bids [OF assms(1)]])
  moreover have "\<forall>e\<in>set (asks s'). side (entry_order e) = SELL"
    by (rule filled_sides [OF assms(3) f(2) index_inv_asks [OF assms(1)]])
  ultimately show ?thesis
    using 2(2) index_inv_next [OF assms(1)] by (intro index_invI) (simp_all add: m f(3))
qed

lemma market_buy_step_index_inv:
  assumes "index_inv s" "asks s \<noteq> []" "market_buy_step now mo s = Some (mo', s')"
  shows "index_inv s'"
proof -
  let ?q = "min (quantity mo) (quantity (best (asks s)))"
  let ?m1 = "sync_index (order_map s) (best (asks s)) (quantity (best (asks s)) - ?q)"
  have f: "filled (asks s) ?q (asks s')" "bids s' = bids s" "next_order_id s' = next_order_id s"
    using market_buy_step_effect [OF assms(2), of now mo] assms(3) by auto
  have m: "order_map s' = ?m1"
    using market_buy_step_Some [OF assms(2), of mo now] assms(3) by auto
  have "indexed (mset (asks s) + mset (bids s)) (order_map s)"
    using index_inv_indexed [OF assms(1)] by (simp add: resting_def add.commute)
  then have 1: "indexed (mset (asks s') + mset (bids s)) ?m1" "index_entries_ok ?m1 (next_order_id s)"
    using fill_side_indexed [OF _ assms(2) f(1) index_inv_entries [OF assms(1)], of "mset (bids s)"]
    by simp_all
  have "indexed (resting s') (order_map s')"
    using 1(1) by (simp add: resting_def m f(2) add.commute)
  moreover have "\<forall>e\<in>set (asks s'). side (entry_order e) = SELL"
    by (rule filled_sides [OF assms(2) f(1) index_inv_asks [OF assms(1)]])
  ultimately show ?thesis
    using 1(2) index_inv_next [OF assms(1)] index_inv_bids [OF assms(1)]
    by (intro index_invI) (simp_all add: m f(2,3))
qed

lemma market_sell_step_index_inv:
  assumes "index_inv s" "bids s \<noteq> []" "market_sell_step now mo s = Some (mo', s')"
  shows "index_inv s'"
proof -
  let ?q = "min (quantity mo) (quantity (best (bids s)))"
  let ?m1 = "sync_index (order_map s) (best (bids s)) (quantity (best (bids s)) - ?q)"
  have f: "filled (bids s) ?q (bids s')" "asks s' = asks s" "next_order_id s' = next_order_id s"
    using market_sell_step_effect [OF assms(2), of now mo] assms(3) by auto
  have m: "order_map s' = ?m1"
    using market_sell_step_Some [OF assms(2), of mo now] assms(3) by auto
  have "indexed (mset (bids s) + mset (asks s)) (order_map s)"
    using index_inv_indexed [OF assms(1)] by (simp add: resting_def)
  then have 1: "indexed (mset (bids s') + mset (asks s)) ?m1" "index_entries_ok ?m1 (next_order_id s)"
    using fill_side_indexed [OF _ assms(2) f(1) index_inv_entries [OF assms(1)], of "mset (asks s)"]
    by simp_all
  have "indexed (resting s') (order_map s')"
    using 1(1) by (simp add: resting_def m f(2))
  moreover have "\<forall>e\<in>set (bids s'). side (entry_order e) = BUY"
    by (rule filled_sides [OF assms(2) f(1) index_inv_bids [OF assms(1)]])
  ultimately show ?thesis
    using 1(2) assms(1) by (simp add: index_inv_def m f(2,3))
qed


lemma limit_insert_index_inv:
  assumes "index_inv s" "order_id ord = next_order_id s" "order_type ord \<noteq> MARKET"
  shows "index_inv (limit_insert ord (s\<lparr>next_order_id := next_order_id s + 1\<rparr>))"
proof -
  let ?n = "next_order_id s"
  let ?new = "(if side ord = BUY then - price ord else price ord, timestamp ord, ord)"
  let ?s' = "limit_insert ord (s\<lparr>next_order_id := ?n + 1\<rparr>)"
  have ty: "order_type ord = LIMIT"
    using assms(3) by (cases "order_type ord") auto
  have idx: "indexed (resting s) (order_map s)" and ok: "index_entries_ok (order_map s) ?n"
    and n1: "1 \<le> ?n"
    using index_inv_indexed [OF assms(1)] index_inv_entries [OF assms(1)] index_inv_next [OF assms(1)]
    by simp_all
  have R: "resting ?s' = add_mset ?new (resting s)"
    by (simp add: resting_def limit_insert_def Let_def mset_heappush)
  have m: "order_map ?s' = (order_map s)(?n \<mapsto> ord)"
    by (simp add: limit_insert_def Let_def assms(2))
  have old: "eid e < ?n" "order_map s (eid e) = Some (entry_order e)" if "e \<in># resting s" for e
  proof -
    show "order_map s (eid e) = Some (entry_order e)"
      using idx that unfolding indexed_def by blast
    then show "eid e < ?n"
      using ok unfolding index_entries_ok_def by blast
  qed
  have new: "eid ?new = ?n"
    by (simp add: eid_def entry_order_def assms(2))
  have "?n \<notin># image_mset eid (resting s)"
    using old(1) by fastforce
  then have "count (image_mset eid (resting s)) ?n = 0"
    by (simp add: count_eq_zero_iff)
  then have c: "\<forall>i. count (image_mset eid (resting ?s')) i \<le> 1"
    using idx unfolding indexed_def R by (simp add: new)
  have "order_map ?s' (eid e) = Some (entry_order e)" if "e \<in># resting ?s'" for e
  proof (cases "e = ?new")
    case True
    then show ?thesis
      unfolding m by (simp add: eid_def entry_order_def assms(2))
  next
    case False
    then have "e \<in># resting s"
      using that unfolding R by simp
    then show ?thesis
      unfolding m using old [of e] by simp
  qed
  then have 1: "indexed (resting ?s') (order_map ?s')"
    using c unfolding indexed_def by blast
  have 2: "\<forall>e\<in>set (bids ?s'). side (entry_order e) = BUY"
    using index_inv_bids [OF assms(1)] by (auto simp: limit_insert_def Let_def entry_order_def)
  have "side ord \<noteq> BUY \<Longrightarrow> side ord = SELL"
    by (cases "side ord") auto
  then have 3: "\<forall>e\<in>set (asks ?s'). side (entry_order e) = SELL"
    using index_inv_asks [OF assms(1)] by (auto simp: limit_insert_def Let_def entry_order_def)
  have 4: "index_entries_ok (order_map ?s') (next_order_id ?s')"
  proof -
    have "next_order_id ?s' = ?n + 1"
      by (simp add: limit_insert_def Let_def)
    moreover have "index_entries_ok ((order_map s)(?n \<mapsto> ord)) (?n + 1)"
      unfolding index_entries_ok_def
    proof (intro allI impI)
      fix i x
      assume a: "((order_map s)(?n \<mapsto> ord)) i = Some x"
      show "order_id x = i \<and> order_type x = LIMIT \<and> 1 \<le> i \<and> i < ?n + 1"
      proof (cases "i = ?n")
        case True
        then show ?thesis
          using a n1 ty assms(2) by simp
      next
        case False
        then have "order_map s i = Some x"
          using a by simp
        then have "order_id x = i \<and> order_type x = LIMIT \<and> 1 \<le> i \<and> i < ?n"
          using ok unfolding index_entries_ok_def by blast
        then show ?thesis by simp
      qed
    qed
    ultimately show ?thesis
      by (simp add: m)
  qed
  have 5: "1 \<le> next_order_id ?s'"
    using n1 by (simp add: limit_insert_def Let_def)
  show ?thesis
    using 1 2 3 4 5 by (rule index_invI)
qed

lemma index_inv_advance:
  assumes "index_inv s"
  shows "index_inv (s\<lparr>next_order_id := next_order_id s + 1\<rparr>)"
proof -
  have "index_entries_ok (order_map s) (next_order_id s + 1)"
    unfolding index_entries_ok_def
  proof (intro allI impI)
    fix i x
    assume "order_map s i = Some x"
    then have "order_id x = i \<and> order_type x = LIMIT \<and> 1 \<le> i \<and> i < next_order_id s"
      using index_inv_entries [OF assms] unfolding index_entries_ok_def by blast
    then show "order_id x = i \<and> order_type x = LIMIT \<and> 1 \<le> i \<and> i < next_order_id s + 1"
      by simp
  qed
  then show ?thesis
    using index_inv_indexed [OF assms] index_inv_bids [OF assms] index_inv_asks [OF assms]
      index_inv_next [OF assms]
    by (intro index_invI) (simp_all add: resting_def)
qed

lemma cancel_order_known:
  assumes "order_map s oid = Some ord"
  shows "cancel_order oid s =
     (True, if side ord = BUY
            then s\<lparr>order_map := (order_map s)(oid := None),
                   bids := heapify (filter (\<lambda>e. eid e \<noteq> oid) (bids s))\<rparr>
            else s\<lparr>order_map := (order_map s)(oid := None),
                   asks := heapify (filter (\<lambda>e. eid e \<noteq> oid) (asks s))\<rparr>)"
proof -
  have "(\<lambda>(p, t, x). order_id x \<noteq> oid) = (\<lambda>e. eid e \<noteq> oid)"
    by (auto simp: eid_def entry_order_def)
  then show ?thesis
    using assms by (simp add: cancel_order_def Let_def)
qed

lemma cancel_order_resting:
  assumes "index_inv s" "order_map s oid = Some ord"
  shows "resting (snd (cancel_order oid s)) = filter_mset (\<lambda>e. eid e \<noteq> oid) (resting s)"
proof -
  have idx: "\<And>e. e \<in># resting s \<Longrightarrow> order_map s (eid e) = Some (entry_order e)"
    using index_inv_indexed [OF assms(1)] unfolding indexed_def by blast
  show ?thesis
  proof (cases "side ord = BUY")
    case True
    have "eid e \<noteq> oid" if "e \<in> set (asks s)" for e
    proof
      assume "eid e = oid"
      then have "entry_order e = ord"
        using idx [of e] that assms(2) by (simp add: resting_def)
      then show False
        using index_inv_asks [OF assms(1)] that True by auto
    qed
    then have "filter_mset (\<lambda>e. eid e \<noteq> oid) (mset (asks s)) = mset (asks s)"
      by (simp add: filter_mset_eq_conv)
    then show ?thesis
      using True by (simp add: cancel_order_known [OF assms(2)] resting_def mset_heapify)
  next
    case False
    have "eid e \<noteq> oid" if "e \<in> set (bids s)" for e
    proof
      assume "eid e = oid"
      then have "entry_order e = ord"
        using idx [of e] that assms(2) by (simp add: resting_def)
      then show False
        using index_inv_bids [OF assms(1)] that False by auto
    qed
    then have "filter_mset (\<lambda>e. eid e \<noteq> oid) (mset (bids s)) = mset (bids s)"
      by (simp add: filter_mset_eq_conv)
    then show ?thesis
      using False by (simp add: cancel_order_known [OF assms(2)] resting_def mset_heapify)
  qed
qed

lemma cancel_order_index_inv:
  assumes "index_inv s"
  shows "index_inv (snd (cancel_order oid s))"
proof (cases "order_map s oid")
  case None
  then have "snd (cancel_order oid s) = s"
    by (simp add: cancel_order_def)
  then show ?thesis
    using assms by simp
next
  case (Some ord)
  let ?s' = "snd (cancel_order oid s)"
  have R: "resting ?s' = filter_mset (\<lambda>e. eid e \<noteq> oid) (resting s)"
    using cancel_order_resting [OF assms Some] .
  have m: "order_map ?s' = (order_map s)(oid := None)" and n: "next_order_id ?s' = next_order_id s"
    by (simp_all add: cancel_order_known [OF Some])
  have "indexed (resting ?s') (order_map s)"
    unfolding R by (rule indexed_mono [OF index_inv_indexed [OF assms]]) simp
  then have 1: "indexed (resting ?s') (order_map ?s')"
    unfolding indexed_def m R by simp
  have sub: "set (bids ?s') \<subseteq> set (bids s)" "set (asks ?s') \<subseteq> set (asks s)"
    using cancel_order_sides [of oid s] by simp_all
  have 2: "\<forall>e\<in>set (bids ?s'). side (entry_order e) = BUY"
    using index_inv_bids [OF assms] sub(1) by blast
  have 3: "\<forall>e\<in>set (asks ?s'). side (entry_order e) = SELL"
    using index_inv_asks [OF assms] sub(2) by blast
  have 4: "index_entries_ok (order_map ?s') (next_order_id ?s')"
    using index_inv_entries [OF assms] unfolding m n index_entries_ok_def
    by (simp split: if_splits)
  have 5: "1 \<le> next_order_id ?s'"
    using index_inv_next [OF assms] unfolding n .
  show ?thesis
    using 1 2 3 4 5 by (rule index_invI)
qed

lemma apply_op_index_inv:
  assumes "index_inv s"
  shows "\<exists>s'. apply_op x s = Some s' \<and> index_inv s'"
proof (cases x)
  case (Submit clock sd pr qty ty name)
  let ?ord = "\<lparr>order_id = next_order_id s, side = sd, price = pr, quantity = qty, order_type = ty,
                 timestamp = clock 0, participant_name = name\<rparr>"
  let ?s0 = "s\<lparr>next_order_id := next_order_id s + 1\<rparr>"
  have "\<exists>ok s'. add_order (\<lambda>n. clock (Suc n)) ?ord ?s0 = Some (ok, s') \<and> index_inv s' \<and>
     (order_type ?ord \<noteq> MARKET \<longrightarrow> ok \<and>
        (bids s' = [] \<or> asks s' = [] \<or> price (best (bids s')) < price (best (asks s'))))"
  proof (rule add_order_rule [where P = index_inv])
    show "index_inv ?s0"
      using index_inv_advance [OF assms] .
    show "index_inv (limit_insert ?ord ?s0)" if "order_type ?ord \<noteq> MARKET"
      using limit_insert_index_inv [OF assms _ that] by simp
    show "index_inv s2" if "index_inv s1" "bids s1 \<noteq> []" "asks s1 \<noteq> []" "match_step now s1 = Some s2"
      for now s1 s2
      using match_step_index_inv [OF that] .
    show "index_inv s2" if "index_inv s1" "asks s1 \<noteq> []" "market_buy_step now mo s1 = Some (mo', s2)"
      for now mo s1 mo' s2
      using market_buy_step_index_inv [OF that] .
    show "index_inv s2" if "index_inv s1" "bids s1 \<noteq> []" "market_sell_step now mo s1 = Some (mo', s2)"
      for now mo s1 mo' s2
      using market_sell_step_index_inv [OF that] .
  qed
  then show ?thesis
    unfolding Submit by (auto simp: add_order_api_def Let_def)
next
  case (Cancel oid)
  then show ?thesis
    using cancel_order_index_inv [OF assms] by simp
qed

lemma index_inv_init: "index_inv init"
  by (simp add: index_inv_def indexed_def resting_def index_entries_ok_def init_def)

lemma run_index_inv: "\<exists>s. run ops init = Some s \<and> index_inv s"
  by (rule run_rule) (use index_inv_init apply_op_index_inv in auto)


lemma resting_ids_eid: "resting_ids h = eid ` set h"
  by (simp add: resting_ids_def eid_def)

text \<open>
  \<open>live_entries R m\<close>: an order of the index \<open>m\<close> whose quantity is not zero is the order
  of one of the resting entries \<open>R\<close>. The loops pop an order from its queue exactly when its
  quantity has reached zero, and leave its index entry.
\<close>

definition live_entries :: "entry multiset \<Rightarrow> (int \<rightharpoonup> Order) \<Rightarrow> bool" where
  "live_entries R m \<longleftrightarrow>
     (\<forall>i ord. m i = Some ord \<longrightarrow> quantity ord = 0 \<or> (\<exists>e\<in>#R. entry_order e = ord))"

lemma filled_superset: "h \<noteq> [] \<Longrightarrow> filled h q h' \<Longrightarrow> mset h - {#h ! 0#} \<subseteq># mset h'"
  unfolding filled_def by (auto split: if_splits)

lemma fill_side_live:
  assumes "indexed (mset h + X) m" "h \<noteq> []" "filled h q h'" "index_entries_ok m n"
    and live: "live_entries (mset h + X) m"
  shows "live_entries (mset h' + X) (sync_index m (best h) (quantity (best h) - q))"
proof -
  let ?r = "h ! 0"
  let ?m' = "sync_index m (best h) (quantity (best h) - q)"
  have r: "?r \<in># mset h + X"
    using assms(2) by simp
  have mr: "m (eid ?r) = Some (entry_order ?r)"
    using assms(1) r unfolding indexed_def by blast
  have m': "?m' = m(eid ?r \<mapsto> entry_order (dec_entry ?r q))"
    using mr by (simp add: sync_index_def eid_def dec_entry_def entry_order_def best_def)
  have sub: "mset h - {#?r#} \<subseteq># mset h'"
    using filled_superset [OF assms(2,3)] .
  have "quantity x = 0 \<or> (\<exists>e\<in>#mset h' + X. entry_order e = x)" if a: "?m' i = Some x" for i x
  proof (cases "i = eid ?r")
    case True
    then have x: "x = entry_order (dec_entry ?r q)"
      using a unfolding m' by simp
    show ?thesis
    proof (cases "quantity (best h) = q")
      case True
      then show ?thesis
        unfolding x by (simp add: best_def)
    next
      case False
      then have "dec_entry ?r q \<in># mset h'"
        using assms(3) unfolding filled_def by simp
      then show ?thesis
        unfolding x by auto
    qed
  next
    case False
    then have mi: "m i = Some x"
      using a unfolding m' by simp
    show ?thesis
    proof (cases "quantity x = 0")
      case True
      then show ?thesis by simp
    next
      case nz: False
      then obtain e where e: "e \<in># mset h + X" "entry_order e = x"
        using live mi unfolding live_entries_def by blast
      have "order_id x = i"
        using assms(4) mi unfolding index_entries_ok_def by blast
      then have "eid e \<noteq> eid ?r"
        using False e(2) by (simp add: eid_def)
      then have "e \<noteq> ?r"
        by auto
      then have "e \<in># (mset h + X) - {#?r#}"
        using e(1) by (simp add: in_diff_count)
      moreover have "(mset h + X) - {#?r#} = (mset h - {#?r#}) + X"
        using assms(2) by simp
      ultimately have "e \<in># (mset h - {#?r#}) + X"
        by simp
      then have "e \<in># mset h' + X"
        using sub by (meson mset_subset_eqD subset_mset.add_right_mono)
      then show ?thesis
        using e(2) by blast
    qed
  qed
  then show ?thesis
    unfolding live_entries_def by blast
qed

lemma match_step_live:
  assumes "index_inv s" "live_entries (resting s) (order_map s)"
    "bids s \<noteq> []" "asks s \<noteq> []" "match_step now s = Some s'"
  shows "live_entries (resting s') (order_map s')"
proof -
  let ?q = "min (quantity (best (bids s))) (quantity (best (asks s)))"
  let ?m1 = "sync_index (order_map s) (best (bids s)) (quantity (best (bids s)) - ?q)"
  let ?m2 = "sync_index ?m1 (best (asks s)) (quantity (best (asks s)) - ?q)"
  have f: "filled (bids s) ?q (bids s')" "filled (asks s) ?q (asks s')"
    using match_step_effect [OF assms(3,4), of now] assms(5) by auto
  have m: "order_map s' = ?m2"
    using match_step_Some [OF assms(3,4), of now] assms(5) by auto
  have i0: "indexed (mset (bids s) + mset (asks s)) (order_map s)"
    using index_inv_indexed [OF assms(1)] by (simp add: resting_def)
  have l0: "live_entries (mset (bids s) + mset (asks s)) (order_map s)"
    using assms(2) by (simp add: resting_def)
  have 1: "indexed (mset (bids s') + mset (asks s)) ?m1" "index_entries_ok ?m1 (next_order_id s)"
    using fill_side_indexed [OF i0 assms(3) f(1) index_inv_entries [OF assms(1)]] by simp_all
  have l1: "live_entries (mset (bids s') + mset (asks s)) ?m1"
    using fill_side_live [OF i0 assms(3) f(1) index_inv_entries [OF assms(1)] l0] .
  have i1: "indexed (mset (asks s) + mset (bids s')) ?m1"
    using 1(1) by (simp add: add.commute)
  have l1': "live_entries (mset (asks s) + mset (bids s')) ?m1"
    using l1 by (simp add: add.commute)
  have "live_entries (mset (asks s') + mset (bids s')) ?m2"
    using fill_side_live [OF i1 assms(4) f(2) 1(2) l1'] .
  then show ?thesis
    by (simp add: resting_def m add.commute)
qed

lemma market_buy_step_live:
  assumes "index_inv s" "live_entries (resting s) (order_map s)"
    "asks s \<noteq> []" "market_buy_step now mo s = Some (mo', s')"
  shows "live_entries (resting s') (order_map s')"
proof -
  let ?q = "min (quantity mo) (quantity (best (asks s)))"
  let ?m1 = "sync_index (order_map s) (best (asks s)) (quantity (best (asks s)) - ?q)"
  have f: "filled (asks s) ?q (asks s')" "bids s' = bids s"
    using market_buy_step_effect [OF assms(3), of now mo] assms(4) by auto
  have m: "order_map s' = ?m1"
    using market_buy_step_Some [OF assms(3), of mo now] assms(4) by auto
  have i0: "indexed (mset (asks s) + mset (bids s)) (order_map s)"
    using index_inv_indexed [OF assms(1)] by (simp add: resting_def add.commute)
  have l0: "live_entries (mset (asks s) + mset (bids s)) (order_map s)"
    using assms(2) by (simp add: resting_def add.commute)
  have "live_entries (mset (asks s') + mset (bids s)) ?m1"
    using fill_side_live [OF i0 assms(3) f(1) index_inv_entries [OF assms(1)] l0] .
  then show ?thesis
    by (simp add: resting_def m f(2) add.commute)
qed

lemma market_sell_step_live:
  assumes "index_inv s" "live_entries (resting s) (order_map s)"
    "bids s \<noteq> []" "market_sell_step now mo s = Some (mo', s')"
  shows "live_entries (resting s') (order_map s')"
proof -
  let ?q = "min (quantity mo) (quantity (best (bids s)))"
  let ?m1 = "sync_index (order_map s) (best (bids s)) (quantity (best (bids s)) - ?q)"
  have f: "filled (bids s) ?q (bids s')" "asks s' = asks s"
    using market_sell_step_effect [OF assms(3), of now mo] assms(4) by auto
  have m: "order_map s' = ?m1"
    using market_sell_step_Some [OF assms(3), of mo now] assms(4) by auto
  have i0: "indexed (mset (bids s) + mset (asks s)) (order_map s)"
    using index_inv_indexed [OF assms(1)] by (simp add: resting_def)
  have l0: "live_entries (mset (bids s) + mset (asks s)) (order_map s)"
    using assms(2) by (simp add: resting_def)
  have "live_entries (mset (bids s') + mset (asks s)) ?m1"
    using fill_side_live [OF i0 assms(3) f(1) index_inv_entries [OF assms(1)] l0] .
  then show ?thesis
    by (simp add: resting_def m f(2))
qed

lemma limit_insert_live:
  assumes "live_entries (resting s) (order_map s)"
  shows "live_entries (resting (limit_insert ord s)) (order_map (limit_insert ord s))"
proof -
  let ?new = "(if side ord = BUY then - price ord else price ord, timestamp ord, ord)"
  let ?s' = "limit_insert ord s"
  have R: "resting ?s' = add_mset ?new (resting s)"
    by (simp add: resting_def limit_insert_def Let_def mset_heappush)
  have m: "order_map ?s' = (order_map s)(order_id ord \<mapsto> ord)"
    by (simp add: limit_insert_def Let_def)
  have "quantity x = 0 \<or> (\<exists>e\<in>#resting ?s'. entry_order e = x)" if a: "order_map ?s' i = Some x" for i x
  proof (cases "i = order_id ord")
    case True
    then have "x = entry_order ?new"
      using a unfolding m by (simp add: entry_order_def)
    then show ?thesis
      unfolding R by auto
  next
    case False
    then have "order_map s i = Some x"
      using a unfolding m by simp
    then have "quantity x = 0 \<or> (\<exists>e\<in>#resting s. entry_order e = x)"
      using assms unfolding live_entries_def by blast
    then show ?thesis
      unfolding R by auto
  qed
  then show ?thesis
    unfolding live_entries_def by blast
qed

lemma cancel_order_live:
  assumes "index_inv s" "live_entries (resting s) (order_map s)"
  shows "live_entries (resting (snd (cancel_order oid s))) (order_map (snd (cancel_order oid s)))"
proof (cases "order_map s oid")
  case None
  then have "snd (cancel_order oid s) = s"
    by (simp add: cancel_order_def)
  then show ?thesis
    using assms(2) by simp
next
  case (Some ord)
  let ?s' = "snd (cancel_order oid s)"
  have R: "resting ?s' = filter_mset (\<lambda>e. eid e \<noteq> oid) (resting s)"
    using cancel_order_resting [OF assms(1) Some] .
  have m: "order_map ?s' = (order_map s)(oid := None)"
    by (simp add: cancel_order_known [OF Some])
  have "quantity x = 0 \<or> (\<exists>e\<in>#resting ?s'. entry_order e = x)" if a: "order_map ?s' i = Some x" for i x
  proof (cases "quantity x = 0")
    case True
    then show ?thesis by simp
  next
    case False
    have i: "i \<noteq> oid" "order_map s i = Some x"
      using a unfolding m by (simp_all split: if_splits)
    then obtain e where e: "e \<in># resting s" "entry_order e = x"
      using assms(2) False unfolding live_entries_def by blast
    have "order_id x = i"
      using index_inv_entries [OF assms(1)] i(2) unfolding index_entries_ok_def by blast
    then have "eid e \<noteq> oid"
      using i(1) e(2) by (simp add: eid_def)
    then have "e \<in># resting ?s'"
      unfolding R using e(1) by simp
    then show ?thesis
      using e(2) by blast
  qed
  then show ?thesis
    unfolding live_entries_def by blast
qed

lemma resting_next_id [simp]: "resting (s\<lparr>next_order_id := i\<rparr>) = resting s"
  by (simp add: resting_def)

lemma apply_op_live:
  assumes "index_inv s \<and> live_entries (resting s) (order_map s)"
  shows "\<exists>s'. apply_op x s = Some s' \<and> index_inv s' \<and> live_entries (resting s') (order_map s')"
proof (cases x)
  case (Submit clock sd pr qty ty name)
  let ?ord = "\<lparr>order_id = next_order_id s, side = sd, price = pr, quantity = qty, order_type = ty,
                 timestamp = clock 0, participant_name = name\<rparr>"
  let ?before = "s\<lparr>next_order_id := next_order_id s + 1\<rparr>"
  let ?P = "\<lambda>s1. index_inv s1 \<and> live_entries (resting s1) (order_map s1)"
  have inv: "index_inv s" and live: "live_entries (resting s) (order_map s)"
    using assms by simp_all
  have "\<exists>ok s'. add_order (\<lambda>n. clock (Suc n)) ?ord ?before = Some (ok, s') \<and> ?P s' \<and>
     (order_type ?ord \<noteq> MARKET \<longrightarrow> ok \<and>
        (bids s' = [] \<or> asks s' = [] \<or> price (best (bids s')) < price (best (asks s'))))"
  proof (rule add_order_rule [where P = ?P])
    show "?P ?before"
      using index_inv_advance [OF inv] live by simp
    show "?P (limit_insert ?ord ?before)" if "order_type ?ord \<noteq> MARKET"
    proof
      show "index_inv (limit_insert ?ord ?before)"
        using limit_insert_index_inv [OF inv _ that] by simp
      have "live_entries (resting ?before) (order_map ?before)"
        using live by simp
      then show "live_entries (resting (limit_insert ?ord ?before)) (order_map (limit_insert ?ord ?before))"
        by (rule limit_insert_live)
    qed
    show "?P s2" if "?P s1" "bids s1 \<noteq> []" "asks s1 \<noteq> []" "match_step now s1 = Some s2"
      for now s1 s2
      using match_step_index_inv [OF _ that(2,3,4)] match_step_live [OF _ _ that(2,3,4)] that(1)
      by blast
    show "?P s2" if "?P s1" "asks s1 \<noteq> []" "market_buy_step now mo s1 = Some (mo', s2)"
      for now mo s1 mo' s2
      using market_buy_step_index_inv [OF _ that(2,3)] market_buy_step_live [OF _ _ that(2,3)] that(1)
      by blast
    show "?P s2" if "?P s1" "bids s1 \<noteq> []" "market_sell_step now mo s1 = Some (mo', s2)"
      for now mo s1 mo' s2
      using market_sell_step_index_inv [OF _ that(2,3)] market_sell_step_live [OF _ _ that(2,3)] that(1)
      by blast
  qed
  then show ?thesis
    unfolding Submit by (auto simp: add_order_api_def Let_def)
next
  case (Cancel oid)
  then show ?thesis
    using cancel_order_index_inv [of s oid] cancel_order_live [of s oid] assms by simp
qed

lemma run_live:
  "\<exists>s. run ops init = Some s \<and> index_inv s \<and> live_entries (resting s) (order_map s)"
proof (rule run_rule)
  show "index_inv init \<and> live_entries (resting init) (order_map init)"
    using index_inv_init by (simp add: live_entries_def init_def)
  show "\<exists>s'. apply_op x s = Some s' \<and> index_inv s' \<and> live_entries (resting s') (order_map s')"
    if "index_inv s \<and> live_entries (resting s) (order_map s)" for x s
    using apply_op_live [OF that] .
qed

text \<open>
  In such a book an indexed order with quantity left rests once, in the queue of its side.
\<close>

lemma live_resting_once:
  assumes "index_inv s" "live_entries (resting s) (order_map s)"
    "order_map s i = Some ord" "quantity ord \<noteq> 0"
  shows "count (image_mset eid (resting s)) i = 1 \<and>
     (\<exists>e\<in>#resting s. entry_order e = ord) \<and>
     (side ord = BUY \<longrightarrow> i \<in> resting_ids (bids s) \<and> i \<notin> resting_ids (asks s)) \<and>
     (side ord = SELL \<longrightarrow> i \<in> resting_ids (asks s) \<and> i \<notin> resting_ids (bids s))"
proof -
  obtain e where e: "e \<in># resting s" "entry_order e = ord"
    using assms(2,3,4) unfolding live_entries_def by blast
  have idx: "\<And>x. x \<in># resting s \<Longrightarrow> order_map s (eid x) = Some (entry_order x)"
    and c: "count (image_mset eid (resting s)) i \<le> 1"
    using index_inv_indexed [OF assms(1)] unfolding indexed_def by blast+
  have "order_id ord = i"
    using index_inv_entries [OF assms(1)] assms(3) unfolding index_entries_ok_def by blast
  then have ei: "eid e = i"
    using e(2) by (simp add: eid_def)
  then have "i \<in># image_mset eid (resting s)"
    using e(1) by auto
  then have "0 < count (image_mset eid (resting s)) i"
    by (simp only: count_greater_zero_iff)
  then have 1: "count (image_mset eid (resting s)) i = 1"
    using c by linarith
  have same: "entry_order x = ord" if "x \<in># resting s" "eid x = i" for x
    using idx [OF that(1)] that(2) assms(3) by simp
  have nb: "i \<notin> resting_ids (bids s)" if "side ord = SELL"
  proof
    assume "i \<in> resting_ids (bids s)"
    then obtain x where x: "x \<in> set (bids s)" "eid x = i"
      by (auto simp: resting_ids_eid)
    then have "entry_order x = ord"
      using same [of x] by (simp add: resting_def)
    then show False
      using index_inv_bids [OF assms(1)] x(1) that by auto
  qed
  have na: "i \<notin> resting_ids (asks s)" if "side ord = BUY"
  proof
    assume "i \<in> resting_ids (asks s)"
    then obtain x where x: "x \<in> set (asks s)" "eid x = i"
      by (auto simp: resting_ids_eid)
    then have "entry_order x = ord"
      using same [of x] by (simp add: resting_def)
    then show False
      using index_inv_asks [OF assms(1)] x(1) that by auto
  qed
  have "i \<in> resting_ids (bids s) \<union> resting_ids (asks s)"
    using e(1) ei by (auto simp: resting_ids_eid resting_def)
  then have 2: "side ord = BUY \<longrightarrow> i \<in> resting_ids (bids s) \<and> i \<notin> resting_ids (asks s)"
    and 3: "side ord = SELL \<longrightarrow> i \<in> resting_ids (asks s) \<and> i \<notin> resting_ids (bids s)"
    using na nb by auto
  show ?thesis
    using 1 e 2 3 by blast
qed

lemma unrested_filled:
  assumes "live_entries (resting s) (order_map s)" "index_inv s" "order_map s i = Some ord"
    "i \<notin> resting_ids (bids s) \<union> resting_ids (asks s)"
  shows "quantity ord = 0"
proof (rule ccontr)
  assume "quantity ord \<noteq> 0"
  then have "(side ord = BUY \<longrightarrow> i \<in> resting_ids (bids s)) \<and> (side ord = SELL \<longrightarrow> i \<in> resting_ids (asks s))"
    using live_resting_once [OF assms(2,1,3)] by blast
  then show False
    using assms(4) by (cases "side ord") auto
qed

text \<open>
  The ids of the index: a submission adds the id it takes when the order is a limit order and
  no id otherwise, and advances the id counter; a cancellation removes the id it is given.
\<close>

lemma submit_index_dom:
  "\<exists>s'. apply_op (Submit clock sd pr qty ty name) s = Some s' \<and>
     dom (order_map s') = (if ty = MARKET then dom (order_map s)
                           else insert (next_order_id s) (dom (order_map s))) \<and>
     next_order_id s' = next_order_id s + 1"
proof -
  let ?ord = "\<lparr>order_id = next_order_id s, side = sd, price = pr, quantity = qty, order_type = ty,
                 timestamp = clock 0, participant_name = name\<rparr>"
  let ?before = "s\<lparr>next_order_id := next_order_id s + 1\<rparr>"
  let ?D = "if ty = MARKET then dom (order_map s) else insert (next_order_id s) (dom (order_map s))"
  let ?P = "\<lambda>s1. dom (order_map s1) = ?D \<and> next_order_id s1 = next_order_id s + 1"
  have "\<exists>ok s'. add_order (\<lambda>n. clock (Suc n)) ?ord ?before = Some (ok, s') \<and> ?P s'"
  proof (cases "ty = MARKET")
    case True
    have "\<exists>ok s'. add_order (\<lambda>n. clock (Suc n)) ?ord ?before = Some (ok, s') \<and> ?P s' \<and>
       (order_type ?ord \<noteq> MARKET \<longrightarrow> ok \<and>
          (bids s' = [] \<or> asks s' = [] \<or> price (best (bids s')) < price (best (asks s'))))"
    proof (rule add_order_rule [where P = ?P])
      show "?P ?before"
        using True by simp
      show "?P (limit_insert ?ord ?before)" if "order_type ?ord \<noteq> MARKET"
        using that True by simp
      show "?P s2" if "?P s1" "order_type ?ord \<noteq> MARKET" for s1 s2 :: OrderBook
        using that True by simp
      show "?P s2" if "?P s1" "asks s1 \<noteq> []" "market_buy_step now mo s1 = Some (mo', s2)"
        for now mo s1 mo' s2
        using market_buy_step_effect [OF that(2), of now mo] that(1,3) by auto
      show "?P s2" if "?P s1" "bids s1 \<noteq> []" "market_sell_step now mo s1 = Some (mo', s2)"
        for now mo s1 mo' s2
        using market_sell_step_effect [OF that(2), of now mo] that(1,3) by auto
    qed
    then show ?thesis by blast
  next
    case False
    have "\<exists>s'. match_orders (\<lambda>n. clock (Suc n)) 0 (limit_insert ?ord ?before) = Some s' \<and> ?P s' \<and>
           (bids s' = [] \<or> asks s' = [] \<or> price (best (bids s')) < price (best (asks s')))"
    proof (rule match_orders_rule [where P = ?P])
      show "?P (limit_insert ?ord ?before)"
        using False by (simp add: limit_insert_def Let_def)
      show "?P s2" if "?P s1" "bids s1 \<noteq> []" "asks s1 \<noteq> []" "match_step now s1 = Some s2"
        for now s1 s2
        using match_step_effect [OF that(2,3), of now] that(1,4) by auto
    qed
    then show ?thesis
      using False by (auto simp: add_order_limit)
  qed
  then show ?thesis
    by (auto simp: add_order_api_def Let_def)
qed

lemma cancel_index_dom:
  "dom (order_map (snd (cancel_order oid s))) = dom (order_map s) - {oid} \<and>
   next_order_id (snd (cancel_order oid s)) = next_order_id s"
  by (cases "order_map s oid") (auto simp: cancel_order_def Let_def)

lemma run_index_keeps:
  assumes "order_map s i \<noteq> None" "Cancel i \<notin> set ops"
  shows "\<exists>s'. run ops s = Some s' \<and> order_map s' i \<noteq> None"
proof (rule run_rule)
  show "order_map s i \<noteq> None"
    using assms(1) .
  show "\<exists>s'. apply_op x s1 = Some s' \<and> order_map s' i \<noteq> None"
    if "order_map s1 i \<noteq> None" "x \<in> set ops" for x s1
  proof (cases x)
    case (Submit clock sd pr qty ty name)
    obtain s' where "apply_op (Submit clock sd pr qty ty name) s1 = Some s'"
      "dom (order_map s') = (if ty = MARKET then dom (order_map s1)
                           else insert (next_order_id s1) (dom (order_map s1)))"
      using submit_index_dom [of clock sd pr qty ty name s1] by blast
    moreover from this(2) have "dom (order_map s1) \<subseteq> dom (order_map s')"
      by (auto split: if_splits)
    ultimately show ?thesis
      unfolding Submit using that(1) by blast
  next
    case (Cancel oid)
    then have "oid \<noteq> i"
      using that(2) assms(2) by auto
    then have "i \<in> dom (order_map (snd (cancel_order oid s1)))"
      using that(1) unfolding cancel_index_dom [THEN conjunct1] by auto
    then show ?thesis
      unfolding Cancel by auto
  qed
qed

lemma run_index_out:
  assumes "order_map s i = None" "i < next_order_id s"
  shows "\<exists>s'. run ops s = Some s' \<and> order_map s' i = None \<and> i < next_order_id s'"
proof (rule run_rule [where P = "\<lambda>s1. order_map s1 i = None \<and> i < next_order_id s1"])
  show "order_map s i = None \<and> i < next_order_id s"
    using assms by simp
  show "\<exists>s'. apply_op x s1 = Some s' \<and> order_map s' i = None \<and> i < next_order_id s'"
    if p: "order_map s1 i = None \<and> i < next_order_id s1" for x s1
  proof (cases x)
    case (Submit clock sd pr qty ty name)
    obtain s' where s': "apply_op (Submit clock sd pr qty ty name) s1 = Some s'"
      "dom (order_map s') = (if ty = MARKET then dom (order_map s1)
                           else insert (next_order_id s1) (dom (order_map s1)))"
      "next_order_id s' = next_order_id s1 + 1"
      using submit_index_dom [of clock sd pr qty ty name s1] by blast
    have "i \<notin> dom (order_map s1)" "i \<noteq> next_order_id s1"
      using p by auto
    then have "i \<notin> dom (order_map s')"
      unfolding s'(2) by (simp split: if_splits)
    then show ?thesis
      unfolding Submit using s'(1,3) p by auto
  next
    case (Cancel oid)
    have "i \<notin> dom (order_map (snd (cancel_order oid s1)))"
      unfolding cancel_index_dom [THEN conjunct1] using p by auto
    then show ?thesis
      unfolding Cancel using p cancel_index_dom [of oid s1] by auto
  qed
qed

lemma run_append:
  "run (xs @ ys) s = (case run xs s of None \<Rightarrow> None | Some s1 \<Rightarrow> run ys s1)"
  by (induction xs arbitrary: s) (auto split: option.splits)

definition filled_example :: OrderBook where
  "filled_example =
     \<lparr>bids = [(- 100, 0, \<lparr>order_id = 1, side = BUY, price = 100, quantity = 5,
                 order_type = LIMIT, timestamp = 0, participant_name = ''mm''\<rparr>)],
      asks = [],
      order_map = [1 \<mapsto> \<lparr>order_id = 1, side = BUY, price = 100, quantity = 5,
                          order_type = LIMIT, timestamp = 0, participant_name = ''mm''\<rparr>,
                   2 \<mapsto> \<lparr>order_id = 2, side = SELL, price = 99, quantity = 0,
                          order_type = LIMIT, timestamp = 1, participant_name = ''rt''\<rparr>],
      trades = [Trade 1 99 5 SELL], next_order_id = 3, last_trade_price = 99\<rparr>"

lemma run_filled_example:
  "run [Submit (const_clock 0) BUY 100 10 LIMIT ''mm'',
        Submit (const_clock 1) SELL 99 5 LIMIT ''rt''] init = Some filled_example"
  by (simp add: book_eval filled_example_def const_clock_def fun_eq_iff)

text \<open>
  Claim C5, as stated, fails for an id that was already filled: the loops pop a filled order
  from its queue and leave its index entry, and \<^verbatim>\<open>cancel_order\<close> looks the id up in the
  index. After LIMIT BUY 100 x 10 and LIMIT SELL 99 x 5 the sell order 2 is filled and rests
  nowhere, and cancelling it returns True and changes the index.
\<close>

theorem cancel_filled_order_counterexample:
  "run [Submit (const_clock 0) BUY 100 10 LIMIT ''mm'',
        Submit (const_clock 1) SELL 99 5 LIMIT ''rt''] init = Some filled_example \<and>
   2 \<notin> resting_ids (bids filled_example) \<union> resting_ids (asks filled_example) \<and>
   fst (cancel_order 2 filled_example) = True \<and>
   order_map filled_example 2 \<noteq> None \<and>
   order_map (snd (cancel_order 2 filled_example)) 2 = None"
  using run_filled_example
  by (simp add: filled_example_def resting_ids_def entry_order_def cancel_order_def Let_def)


lemma cancel_order_unknown: "order_map s oid = None \<Longrightarrow> cancel_order oid s = (False, s)"
  by (simp add: cancel_order_def)

lemma cancel_order_twice:
  "cancel_order oid (snd (cancel_order oid s)) = (False, snd (cancel_order oid s))"
proof -
  have "order_map (snd (cancel_order oid s)) oid = None"
    by (cases "order_map s oid") (simp_all add: cancel_order_def Let_def)
  then show ?thesis
    by (rule cancel_order_unknown)
qed

text \<open>
  Claim C5, amended. \<^verbatim>\<open>cancel_order\<close> returns True exactly for the ids in the index; it
  then removes the id from the index and leaves every other index entry, the trade log, the
  last trade price and the id counter as they were. For an id not in the index it returns
  False and changes nothing, so cancelling an id a second time returns False and changes
  nothing. An id below the id counter that is not in the index (a cancelled id) is never in
  the index again, whatever is submitted or cancelled afterwards, and its cancellation keeps
  returning False. An index entry is removed by the cancellation of its id only: whatever else
  is submitted or cancelled, the id stays in the index and its cancellation returns True. In
  a reachable book every resting order is in the index, the indexed ids lie from 1 to below
  the id counter (an id never issued is not in the index), and a cancellation that returns
  True leaves on the two sides exactly the resting orders with another id: a live order is
  removed whole. A limit order submitted to a reachable book is in the index after any
  operations other than its own cancellation, however much of it was filled; when it rests in
  no queue its quantity is 0 (it was filled), and its cancellation returns True and leaves
  the resting orders unchanged.
\<close>

theorem cancel_semantics:
  "(order_map s oid = None \<longrightarrow> cancel_order oid s = (False, s)) \<and>
   (order_map s oid \<noteq> None \<longrightarrow>
      fst (cancel_order oid s) = True \<and>
      order_map (snd (cancel_order oid s)) = (order_map s)(oid := None) \<and>
      trades (snd (cancel_order oid s)) = trades s \<and>
      last_trade_price (snd (cancel_order oid s)) = last_trade_price s \<and>
      next_order_id (snd (cancel_order oid s)) = next_order_id s) \<and>
   cancel_order oid (snd (cancel_order oid s)) = (False, snd (cancel_order oid s)) \<and>
   (order_map s oid = None \<and> oid < next_order_id s \<longrightarrow>
      (\<exists>s'. run later s = Some s' \<and> order_map s' oid = None \<and>
         cancel_order oid s' = (False, s'))) \<and>
   (oid < next_order_id s \<longrightarrow>
      (\<exists>s'. run later (snd (cancel_order oid s)) = Some s' \<and> order_map s' oid = None \<and>
         cancel_order oid s' = (False, s'))) \<and>
   (order_map s oid \<noteq> None \<and> Cancel oid \<notin> set later \<longrightarrow>
      (\<exists>s'. run later s = Some s' \<and> order_map s' oid \<noteq> None \<and>
         fst (cancel_order oid s') = True)) \<and>
   (run ops init = Some s \<longrightarrow>
      resting_ids (bids s) \<union> resting_ids (asks s) \<subseteq> dom (order_map s) \<and>
      dom (order_map s) \<subseteq> {1 ..< next_order_id s} \<and>
      (order_map s oid \<noteq> None \<longrightarrow>
         resting (snd (cancel_order oid s)) = filter_mset (\<lambda>e. eid e \<noteq> oid) (resting s) \<and>
         oid \<notin> resting_ids (bids (snd (cancel_order oid s))) \<union>
               resting_ids (asks (snd (cancel_order oid s)))) \<and>
      (Cancel (next_order_id s) \<notin> set later \<longrightarrow>
         (\<exists>s1 s' ord. apply_op (Submit clock sd pr qty LIMIT name) s = Some s1 \<and>
            run later s1 = Some s' \<and> order_map s' (next_order_id s) = Some ord \<and>
            fst (cancel_order (next_order_id s) s') = True \<and>
            (next_order_id s \<notin> resting_ids (bids s') \<union> resting_ids (asks s') \<longrightarrow>
               quantity ord = 0 \<and> resting (snd (cancel_order (next_order_id s) s')) = resting s'))))"
proof (intro conjI impI)
  assume "order_map s oid = None"
  then show "cancel_order oid s = (False, s)"
    by (rule cancel_order_unknown)
next
  assume "order_map s oid \<noteq> None"
  then obtain ord where ord: "order_map s oid = Some ord"
    by blast
  show "fst (cancel_order oid s) = True"
    "order_map (snd (cancel_order oid s)) = (order_map s)(oid := None)"
    "trades (snd (cancel_order oid s)) = trades s"
    "last_trade_price (snd (cancel_order oid s)) = last_trade_price s"
    "next_order_id (snd (cancel_order oid s)) = next_order_id s"
    by (simp_all add: cancel_order_known [OF ord])
next
  show "cancel_order oid (snd (cancel_order oid s)) = (False, snd (cancel_order oid s))"
    by (rule cancel_order_twice)
next
  assume "order_map s oid = None \<and> oid < next_order_id s"
  then obtain s' where "run later s = Some s'" "order_map s' oid = None"
    using run_index_out [of s oid later] by blast
  then show "\<exists>s'. run later s = Some s' \<and> order_map s' oid = None \<and>
         cancel_order oid s' = (False, s')"
    using cancel_order_unknown by blast
next
  assume "oid < next_order_id s"
  moreover have "oid \<notin> dom (order_map (snd (cancel_order oid s)))"
    unfolding cancel_index_dom [THEN conjunct1] by simp
  ultimately have "order_map (snd (cancel_order oid s)) oid = None"
    "oid < next_order_id (snd (cancel_order oid s))"
    using cancel_index_dom [of oid s] by auto
  then obtain s' where "run later (snd (cancel_order oid s)) = Some s'" "order_map s' oid = None"
    using run_index_out [of "snd (cancel_order oid s)" oid later] by blast
  then show "\<exists>s'. run later (snd (cancel_order oid s)) = Some s' \<and> order_map s' oid = None \<and>
         cancel_order oid s' = (False, s')"
    using cancel_order_unknown by blast
next
  assume "order_map s oid \<noteq> None \<and> Cancel oid \<notin> set later"
  then obtain s' where s': "run later s = Some s'" "order_map s' oid \<noteq> None"
    using run_index_keeps [of s oid later] by blast
  then obtain ord where "order_map s' oid = Some ord"
    by blast
  then have "fst (cancel_order oid s') = True"
    by (simp add: cancel_order_known)
  then show "\<exists>s'. run later s = Some s' \<and> order_map s' oid \<noteq> None \<and>
         fst (cancel_order oid s') = True"
    using s' by blast
next
  assume r: "run ops init = Some s"
  then have inv: "index_inv s"
    using run_index_inv [of ops] by auto
  have idx: "\<And>e. e \<in># resting s \<Longrightarrow> order_map s (eid e) = Some (entry_order e)"
    using index_inv_indexed [OF inv] unfolding indexed_def by blast
  show "resting_ids (bids s) \<union> resting_ids (asks s) \<subseteq> dom (order_map s)"
  proof
    fix i
    assume "i \<in> resting_ids (bids s) \<union> resting_ids (asks s)"
    then obtain e where e: "e \<in># resting s" "i = eid e"
      by (auto simp: resting_ids_eid resting_def)
    show "i \<in> dom (order_map s)"
      using idx [OF e(1)] e(2) by blast
  qed
  show "dom (order_map s) \<subseteq> {1 ..< next_order_id s}"
    using index_inv_entries [OF inv] unfolding index_entries_ok_def by auto
next
  assume r: "run ops init = Some s" and "order_map s oid \<noteq> None"
  then have inv: "index_inv s" and "\<exists>ord. order_map s oid = Some ord"
    using run_index_inv [of ops] by auto
  then obtain ord where ord: "order_map s oid = Some ord"
    by blast
  show R: "resting (snd (cancel_order oid s)) = filter_mset (\<lambda>e. eid e \<noteq> oid) (resting s)"
    using cancel_order_resting [OF inv ord] .
  have "eid ` set_mset (resting (snd (cancel_order oid s))) =
      resting_ids (bids (snd (cancel_order oid s))) \<union> resting_ids (asks (snd (cancel_order oid s)))"
    by (auto simp: resting_def resting_ids_eid)
  moreover have "oid \<notin> eid ` set_mset (resting (snd (cancel_order oid s)))"
    unfolding R by auto
  ultimately show "oid \<notin> resting_ids (bids (snd (cancel_order oid s))) \<union>
               resting_ids (asks (snd (cancel_order oid s)))"
    by simp
next
  let ?n = "next_order_id s"
  let ?x = "Submit clock sd pr qty LIMIT name"
  assume r: "run ops init = Some s" and nc: "Cancel ?n \<notin> set later"
  obtain s1 where s1: "apply_op ?x s = Some s1" "dom (order_map s1) = insert ?n (dom (order_map s))"
    using submit_index_dom [of clock sd pr qty LIMIT name s] by auto
  then have "order_map s1 ?n \<noteq> None"
    by blast
  then obtain s' where s': "run later s1 = Some s'" "order_map s' ?n \<noteq> None"
    using run_index_keeps [OF _ nc] by blast
  then obtain ord where ord: "order_map s' ?n = Some ord"
    by blast
  have "run (?x # later) s = Some s'"
    using s1(1) s'(1) by (simp del: apply_op.simps)
  then have "run (ops @ ?x # later) init = Some s'"
    using r by (simp add: run_append del: run.simps)
  then have inv: "index_inv s'" and live: "live_entries (resting s') (order_map s')"
    using run_live [of "ops @ ?x # later"] by auto
  have c: "fst (cancel_order ?n s') = True"
    by (simp add: cancel_order_known [OF ord])
  have "quantity ord = 0 \<and> resting (snd (cancel_order ?n s')) = resting s'"
    if nr: "?n \<notin> resting_ids (bids s') \<union> resting_ids (asks s')"
  proof
    show "quantity ord = 0"
      using unrested_filled [OF live inv ord nr] .
    have "?n \<notin> eid ` set_mset (resting s')"
      using nr by (simp add: resting_ids_eid resting_def image_Un)
    then have "\<forall>e\<in>#resting s'. eid e \<noteq> ?n"
      by (metis imageI)
    then have "filter_mset (\<lambda>e. eid e \<noteq> ?n) (resting s') = resting s'"
      by (simp add: filter_mset_eq_conv)
    then show "resting (snd (cancel_order ?n s')) = resting s'"
      using cancel_order_resting [OF inv ord] by simp
  qed
  then show "\<exists>s1 s' ord. apply_op ?x s = Some s1 \<and>
            run later s1 = Some s' \<and> order_map s' ?n = Some ord \<and>
            fst (cancel_order ?n s') = True \<and>
            (?n \<notin> resting_ids (bids s') \<union> resting_ids (asks s') \<longrightarrow>
               quantity ord = 0 \<and> resting (snd (cancel_order ?n s')) = resting s')"
    using s1(1) s'(1) ord c by blast
qed

theorem cancel_semantics_witness:
  "order_map filled_example 7 = None \<and> cancel_order 7 filled_example = (False, filled_example) \<and>
   order_map filled_example 1 \<noteq> None \<and> fst (cancel_order 1 filled_example) = True \<and>
   run [Submit (const_clock 0) BUY 100 10 LIMIT ''mm'',
        Submit (const_clock 1) SELL 99 5 LIMIT ''rt''] init = Some filled_example \<and>
   1 \<in> resting_ids (bids filled_example) \<and>
   1 \<notin> resting_ids (bids (snd (cancel_order 1 filled_example))) \<union>
         resting_ids (asks (snd (cancel_order 1 filled_example))) \<and>
   next_order_id filled_example = 3 \<and>
   (\<exists>s'. run [Submit (const_clock 2) BUY 100 4 LIMIT ''mm'', Cancel 2]
             (snd (cancel_order 1 filled_example)) = Some s' \<and>
      order_map s' 1 = None \<and> cancel_order 1 s' = (False, s')) \<and>
   (\<exists>s'. run [Submit (const_clock 2) SELL 100 5 MARKET ''rt'', Cancel 1] filled_example = Some s' \<and>
      order_map s' 2 \<noteq> None \<and> fst (cancel_order 2 s') = True) \<and>
   (\<exists>s1 s' ord. apply_op (Submit (const_clock 2) SELL 100 3 LIMIT ''rt'') filled_example = Some s1 \<and>
      run [Submit (const_clock 3) BUY 101 7 LIMIT ''mm''] s1 = Some s' \<and>
      order_map s' 3 = Some ord \<and> fst (cancel_order 3 s') = True \<and>
      3 \<notin> resting_ids (bids s') \<union> resting_ids (asks s') \<and>
      quantity ord = 0 \<and> resting (snd (cancel_order 3 s')) = resting s')"
proof -
  let ?ops = "[Submit (const_clock 0) BUY 100 10 LIMIT ''mm'', Submit (const_clock 1) SELL 99 5 LIMIT ''rt'']"
  have a: "order_map filled_example 7 = None" "order_map filled_example 1 \<noteq> None"
    "1 \<in> resting_ids (bids filled_example)" "next_order_id filled_example = 3"
    "order_map filled_example 2 \<noteq> None"
    by (simp_all add: filled_example_def resting_ids_def entry_order_def)
  note t = cancel_semantics [where s = filled_example and ops = ?ops]
  have 1: "cancel_order 7 filled_example = (False, filled_example)"
    using t [where oid = 7, THEN conjunct1] a(1) by blast
  have 2: "fst (cancel_order 1 filled_example) = True"
    using t [where oid = 1, THEN conjunct2, THEN conjunct1] a(2) by blast
  note reach = t [THEN conjunct2, THEN conjunct2, THEN conjunct2, THEN conjunct2, THEN conjunct2,
      THEN conjunct2, rule_format, OF run_filled_example]
  have 3: "1 \<notin> resting_ids (bids (snd (cancel_order 1 filled_example))) \<union>
         resting_ids (asks (snd (cancel_order 1 filled_example)))"
    using reach [where oid = 1, THEN conjunct2, THEN conjunct2, THEN conjunct1] a(2) by blast
  have "(1::int) < next_order_id filled_example"
    by (simp add: a(4))
  then have 4: "\<exists>s'. run [Submit (const_clock 2) BUY 100 4 LIMIT ''mm'', Cancel 2]
             (snd (cancel_order 1 filled_example)) = Some s' \<and>
      order_map s' 1 = None \<and> cancel_order 1 s' = (False, s')"
    using t [where oid = 1 and later = "[Submit (const_clock 2) BUY 100 4 LIMIT ''mm'', Cancel 2]",
        THEN conjunct2, THEN conjunct2, THEN conjunct2, THEN conjunct2, THEN conjunct1]
    by blast
  have "Cancel 2 \<notin> set [Submit (const_clock 2) SELL 100 5 MARKET ''rt'', Cancel 1]"
    by simp
  then have 5: "\<exists>s'. run [Submit (const_clock 2) SELL 100 5 MARKET ''rt'', Cancel 1] filled_example = Some s' \<and>
      order_map s' 2 \<noteq> None \<and> fst (cancel_order 2 s') = True"
    using t [where oid = 2 and later = "[Submit (const_clock 2) SELL 100 5 MARKET ''rt'', Cancel 1]",
        THEN conjunct2, THEN conjunct2, THEN conjunct2, THEN conjunct2, THEN conjunct2, THEN conjunct1]
      a(5) by blast
  have "Cancel (next_order_id filled_example) \<notin> set [Submit (const_clock 3) BUY 101 7 LIMIT ''mm'']"
    by simp
  from reach [where later = "[Submit (const_clock 3) BUY 101 7 LIMIT ''mm'']" and clock = "const_clock 2"
      and sd = SELL and pr = 100 and qty = 3 and name = "''rt''",
      THEN conjunct2, THEN conjunct2, THEN conjunct2, rule_format, OF this]
  obtain s1 s' ord where f:
    "apply_op (Submit (const_clock 2) SELL 100 3 LIMIT ''rt'') filled_example = Some s1"
    "run [Submit (const_clock 3) BUY 101 7 LIMIT ''mm''] s1 = Some s'"
    "order_map s' (next_order_id filled_example) = Some ord"
    "fst (cancel_order (next_order_id filled_example) s') = True"
    "next_order_id filled_example \<notin> resting_ids (bids s') \<union> resting_ids (asks s') \<longrightarrow>
       quantity ord = 0 \<and> resting (snd (cancel_order (next_order_id filled_example) s')) = resting s'"
    by blast
  have "\<forall>s1 s'. apply_op (Submit (const_clock 2) SELL 100 3 LIMIT ''rt'') filled_example = Some s1 \<longrightarrow>
      run [Submit (const_clock 3) BUY 101 7 LIMIT ''mm''] s1 = Some s' \<longrightarrow>
      3 \<notin> resting_ids (bids s') \<union> resting_ids (asks s')"
    by (simp add: book_eval filled_example_def const_clock_def resting_ids_def)
  then have nr: "3 \<notin> resting_ids (bids s') \<union> resting_ids (asks s')"
    using f(1,2) by blast
  have 6: "\<exists>s1 s' ord. apply_op (Submit (const_clock 2) SELL 100 3 LIMIT ''rt'') filled_example = Some s1 \<and>
      run [Submit (const_clock 3) BUY 101 7 LIMIT ''mm''] s1 = Some s' \<and>
      order_map s' 3 = Some ord \<and> fst (cancel_order 3 s') = True \<and>
      3 \<notin> resting_ids (bids s') \<union> resting_ids (asks s') \<and>
      quantity ord = 0 \<and> resting (snd (cancel_order 3 s')) = resting s'"
    using f nr unfolding a(4) by blast
  show ?thesis
    using a(1,2,3,4) 1 2 3 4 5 6 run_filled_example by blast
qed

text \<open>
  Claim C6, as stated, fails: after LIMIT BUY 100 x 10 and LIMIT SELL 99 x 5 the filled sell
  order 2 is still in the index, with quantity 0, and in neither queue.
\<close>

theorem index_queue_counterexample:
  "run [Submit (const_clock 0) BUY 100 10 LIMIT ''mm'',
        Submit (const_clock 1) SELL 99 5 LIMIT ''rt''] init = Some filled_example \<and>
   order_map filled_example 2 =
     Some \<lparr>order_id = 2, side = SELL, price = 99, quantity = 0, order_type = LIMIT,
           timestamp = 1, participant_name = ''rt''\<rparr> \<and>
   2 \<notin> resting_ids (bids filled_example) \<and> 2 \<notin> resting_ids (asks filled_example)"
  using run_filled_example
  by (simp add: filled_example_def resting_ids_def entry_order_def)

text \<open>
  Claim C6, amended. In every reachable book: the resting orders have pairwise different
  ids, so an order rests in one queue only and once; each resting order is in the index under
  its id, as the same order; the bid queue holds BUY orders and the ask queue SELL orders;
  every index entry is a limit order stored under its own id, an id from 1 to below the id
  counter, so that no market order is in the index or in a queue. Every order of the index
  whose quantity is not 0 rests exactly once, in the queue of its side and not in the other
  one; an order of the index that rests in no queue has quantity 0: it was filled. When only
  positive quantities were submitted the orders of the index that rest in no queue are
  exactly those with quantity 0. A submission adds its id to the index when it is a limit
  order, adds nothing when it is a market order, and removes nothing; an index entry stays
  until its id is cancelled, so a filled order stays in the index.
\<close>

theorem index_queue_consistency:
  "(run ops init = Some s \<longrightarrow>
      (\<forall>i. count (image_mset eid (resting s)) i \<le> 1) \<and>
      (\<forall>e\<in>#resting s. order_map s (eid e) = Some (entry_order e)) \<and>
      (\<forall>e\<in>set (bids s). side (entry_order e) = BUY) \<and>
      (\<forall>e\<in>set (asks s). side (entry_order e) = SELL) \<and>
      (\<forall>i ord. order_map s i = Some ord \<longrightarrow>
         order_id ord = i \<and> order_type ord = LIMIT \<and> 1 \<le> i \<and> i < next_order_id s) \<and>
      (\<forall>e\<in>#resting s. order_type (entry_order e) = LIMIT) \<and>
      (\<forall>i ord. order_map s i = Some ord \<and> quantity ord \<noteq> 0 \<longrightarrow>
         count (image_mset eid (resting s)) i = 1 \<and>
         (\<exists>e\<in>#resting s. entry_order e = ord) \<and>
         (side ord = BUY \<longrightarrow> i \<in> resting_ids (bids s) \<and> i \<notin> resting_ids (asks s)) \<and>
         (side ord = SELL \<longrightarrow> i \<in> resting_ids (asks s) \<and> i \<notin> resting_ids (bids s))) \<and>
      (\<forall>i ord. order_map s i = Some ord \<and> i \<notin> resting_ids (bids s) \<union> resting_ids (asks s) \<longrightarrow>
         quantity ord = 0) \<and>
      (positive_ops ops \<longrightarrow>
         (\<forall>i ord. order_map s i = Some ord \<longrightarrow>
            0 \<le> quantity ord \<and>
            (quantity ord = 0 \<longleftrightarrow> i \<notin> resting_ids (bids s) \<union> resting_ids (asks s))))) \<and>
   (\<exists>s'. apply_op (Submit clock sd pr qty ty name) s = Some s' \<and>
      dom (order_map s) \<subseteq> dom (order_map s') \<and>
      dom (order_map s') = (if ty = MARKET then dom (order_map s)
                            else insert (next_order_id s) (dom (order_map s)))) \<and>
   (order_map s oid \<noteq> None \<and> Cancel oid \<notin> set later \<longrightarrow>
      (\<exists>s'. run later s = Some s' \<and> order_map s' oid \<noteq> None))"
proof (intro conjI impI)
  assume "run ops init = Some s"
  then have inv: "index_inv s"
    using run_index_inv [of ops] by auto
  have idx: "indexed (resting s) (order_map s)"
    using index_inv_indexed [OF inv] .
  show "\<forall>i. count (image_mset eid (resting s)) i \<le> 1"
    "\<forall>e\<in>#resting s. order_map s (eid e) = Some (entry_order e)"
    using idx unfolding indexed_def by blast+
  show "\<forall>e\<in>set (bids s). side (entry_order e) = BUY"
    using index_inv_bids [OF inv] .
  show "\<forall>e\<in>set (asks s). side (entry_order e) = SELL"
    using index_inv_asks [OF inv] .
  show ok: "\<forall>i ord. order_map s i = Some ord \<longrightarrow>
         order_id ord = i \<and> order_type ord = LIMIT \<and> 1 \<le> i \<and> i < next_order_id s"
    using index_inv_entries [OF inv] unfolding index_entries_ok_def .
  show "\<forall>e\<in>#resting s. order_type (entry_order e) = LIMIT"
    using idx ok unfolding indexed_def by blast
next
  assume "run ops init = Some s"
  then have inv: "index_inv s" and live: "live_entries (resting s) (order_map s)"
    using run_live [of ops] by auto
  show "\<forall>i ord. order_map s i = Some ord \<and> quantity ord \<noteq> 0 \<longrightarrow>
         count (image_mset eid (resting s)) i = 1 \<and>
         (\<exists>e\<in>#resting s. entry_order e = ord) \<and>
         (side ord = BUY \<longrightarrow> i \<in> resting_ids (bids s) \<and> i \<notin> resting_ids (asks s)) \<and>
         (side ord = SELL \<longrightarrow> i \<in> resting_ids (asks s) \<and> i \<notin> resting_ids (bids s))"
  proof (intro allI impI)
    fix i ord
    assume a: "order_map s i = Some ord \<and> quantity ord \<noteq> 0"
    show "count (image_mset eid (resting s)) i = 1 \<and>
         (\<exists>e\<in>#resting s. entry_order e = ord) \<and>
         (side ord = BUY \<longrightarrow> i \<in> resting_ids (bids s) \<and> i \<notin> resting_ids (asks s)) \<and>
         (side ord = SELL \<longrightarrow> i \<in> resting_ids (asks s) \<and> i \<notin> resting_ids (bids s))"
      by (rule live_resting_once [OF inv live]) (use a in simp_all)
  qed
  show "\<forall>i ord. order_map s i = Some ord \<and> i \<notin> resting_ids (bids s) \<union> resting_ids (asks s) \<longrightarrow>
         quantity ord = 0"
    using unrested_filled [OF live inv] by blast
next
  assume r: "run ops init = Some s" and p: "positive_ops ops"
  have inv: "index_inv s" and live: "live_entries (resting s) (order_map s)"
    using run_live [of ops] r by auto
  have pos: "positive_book s"
    using run_positive_book [OF p] r by auto
  have idx: "\<And>x. x \<in># resting s \<Longrightarrow> order_map s (eid x) = Some (entry_order x)"
    using index_inv_indexed [OF inv] unfolding indexed_def by blast
  show "\<forall>i ord. order_map s i = Some ord \<longrightarrow>
            0 \<le> quantity ord \<and>
            (quantity ord = 0 \<longleftrightarrow> i \<notin> resting_ids (bids s) \<union> resting_ids (asks s))"
  proof (intro allI impI)
    fix i ord
    assume a: "order_map s i = Some ord"
    have rest: "0 < quantity ord" if "i \<in> resting_ids (bids s) \<union> resting_ids (asks s)"
    proof -
      have "i \<in> eid ` (set (bids s) \<union> set (asks s))"
        using that by (simp add: resting_ids_eid image_Un)
      then obtain e where e: "e \<in> set (bids s) \<union> set (asks s)" "eid e = i"
        by (metis imageE)
      then have "e \<in># resting s"
        by (simp add: resting_def)
      then have "entry_order e = ord"
        using idx [of e] e(2) a by simp
      moreover have "0 < quantity (entry_order e)"
        using pos e(1) unfolding positive_book_def by blast
      ultimately show ?thesis
        by simp
    qed
    have unrest: "quantity ord = 0" if "i \<notin> resting_ids (bids s) \<union> resting_ids (asks s)"
      using unrested_filled [OF live inv a that] .
    show "0 \<le> quantity ord \<and>
            (quantity ord = 0 \<longleftrightarrow> i \<notin> resting_ids (bids s) \<union> resting_ids (asks s))"
      using rest unrest by (cases "i \<in> resting_ids (bids s) \<union> resting_ids (asks s)") auto
  qed
next
  obtain s' where s': "apply_op (Submit clock sd pr qty ty name) s = Some s'"
    "dom (order_map s') = (if ty = MARKET then dom (order_map s)
                            else insert (next_order_id s) (dom (order_map s)))"
    using submit_index_dom [of clock sd pr qty ty name s] by blast
  have "dom (order_map s) \<subseteq> dom (order_map s')"
    unfolding s'(2) by auto
  then show "\<exists>s'. apply_op (Submit clock sd pr qty ty name) s = Some s' \<and>
      dom (order_map s) \<subseteq> dom (order_map s') \<and>
      dom (order_map s') = (if ty = MARKET then dom (order_map s)
                            else insert (next_order_id s) (dom (order_map s)))"
    using s' by blast
next
  assume "order_map s oid \<noteq> None \<and> Cancel oid \<notin> set later"
  then show "\<exists>s'. run later s = Some s' \<and> order_map s' oid \<noteq> None"
    using run_index_keeps [of s oid later] by blast
qed

theorem index_queue_consistency_witness:
  "run [Submit (const_clock 0) BUY 100 10 LIMIT ''mm'',
        Submit (const_clock 1) SELL 99 5 LIMIT ''rt''] init = Some filled_example \<and>
   positive_ops [Submit (const_clock 0) BUY 100 10 LIMIT ''mm'',
        Submit (const_clock 1) SELL 99 5 LIMIT ''rt''] \<and>
   bids filled_example \<noteq> [] \<and>
   order_map filled_example (eid (bids filled_example ! 0))
     = Some (entry_order (bids filled_example ! 0)) \<and>
   side (entry_order (bids filled_example ! 0)) = BUY \<and>
   order_type (entry_order (bids filled_example ! 0)) = LIMIT \<and>
   (\<exists>ord. order_map filled_example 1 = Some ord \<and> quantity ord = 5 \<and> side ord = BUY \<and>
      count (image_mset eid (resting filled_example)) 1 = 1 \<and>
      1 \<in> resting_ids (bids filled_example) \<and> 1 \<notin> resting_ids (asks filled_example)) \<and>
   (\<exists>ord. order_map filled_example 2 = Some ord \<and> quantity ord = 0 \<and>
      2 \<notin> resting_ids (bids filled_example) \<union> resting_ids (asks filled_example)) \<and>
   (\<exists>s'. run [Submit (const_clock 2) SELL 100 5 MARKET ''rt'', Cancel 1] filled_example = Some s' \<and>
      order_map s' 2 \<noteq> None)"
proof -
  let ?ops = "[Submit (const_clock 0) BUY 100 10 LIMIT ''mm'', Submit (const_clock 1) SELL 99 5 LIMIT ''rt'']"
  let ?o1 = "\<lparr>order_id = 1, side = BUY, price = 100, quantity = 5,
                 order_type = LIMIT, timestamp = 0, participant_name = ''mm''\<rparr>"
  let ?o2 = "\<lparr>order_id = 2, side = SELL, price = 99, quantity = 0,
                 order_type = LIMIT, timestamp = 1, participant_name = ''rt''\<rparr>"
  have a: "bids filled_example \<noteq> []" "order_map filled_example 1 = Some ?o1"
    "order_map filled_example 2 = Some ?o2"
    "2 \<notin> resting_ids (bids filled_example) \<union> resting_ids (asks filled_example)"
    by (simp_all add: filled_example_def resting_ids_def entry_order_def)
  have p: "positive_ops ?ops"
    by (simp add: positive_ops_def)
  note t = index_queue_consistency [where s = filled_example and ops = ?ops]
  note reach = t [THEN conjunct1, rule_format, OF run_filled_example]
  have b: "bids filled_example ! 0 \<in> set (bids filled_example)"
    using a(1) by simp
  then have "bids filled_example ! 0 \<in># resting filled_example"
    by (simp add: resting_def)
  then have 1: "order_map filled_example (eid (bids filled_example ! 0))
     = Some (entry_order (bids filled_example ! 0))"
    "order_type (entry_order (bids filled_example ! 0)) = LIMIT"
    using reach [THEN conjunct2, THEN conjunct1]
      reach [THEN conjunct2, THEN conjunct2, THEN conjunct2, THEN conjunct2, THEN conjunct2, THEN conjunct1]
    by blast+
  have 2: "side (entry_order (bids filled_example ! 0)) = BUY"
    using reach [THEN conjunct2, THEN conjunct2, THEN conjunct1] b by blast
  note live = reach [THEN conjunct2, THEN conjunct2, THEN conjunct2, THEN conjunct2, THEN conjunct2,
      THEN conjunct2]
  have "order_map filled_example 1 = Some ?o1 \<and> quantity ?o1 \<noteq> 0"
    using a(2) by simp
  then have "count (image_mset eid (resting filled_example)) 1 = 1 \<and>
      (side ?o1 = BUY \<longrightarrow> 1 \<in> resting_ids (bids filled_example) \<and> 1 \<notin> resting_ids (asks filled_example))"
    using live [THEN conjunct1, rule_format, of 1 ?o1] by blast
  then have 3: "\<exists>ord. order_map filled_example 1 = Some ord \<and> quantity ord = 5 \<and> side ord = BUY \<and>
      count (image_mset eid (resting filled_example)) 1 = 1 \<and>
      1 \<in> resting_ids (bids filled_example) \<and> 1 \<notin> resting_ids (asks filled_example)"
    using a(2) by simp
  have "quantity ?o2 = 0"
    using live [THEN conjunct2, THEN conjunct1, rule_format, of 2 ?o2] a(3,4) by blast
  then have 4: "\<exists>ord. order_map filled_example 2 = Some ord \<and> quantity ord = 0 \<and>
      2 \<notin> resting_ids (bids filled_example) \<union> resting_ids (asks filled_example)"
    using a(3,4) by blast
  have "order_map filled_example 2 \<noteq> None \<and>
      Cancel 2 \<notin> set [Submit (const_clock 2) SELL 100 5 MARKET ''rt'', Cancel 1]"
    using a(3) by simp
  then have 5: "\<exists>s'. run [Submit (const_clock 2) SELL 100 5 MARKET ''rt'', Cancel 1] filled_example = Some s' \<and>
      order_map s' 2 \<noteq> None"
    using t [where oid = 2 and later = "[Submit (const_clock 2) SELL 100 5 MARKET ''rt'', Cancel 1]",
        THEN conjunct2, THEN conjunct2] by blast
  show ?thesis
    using run_filled_example p a(1) 1 2 3 4 5 by blast
qed

end
